theory Spec2Isabelle
  imports Complex_Main
begin

section \<open>Session state of the casino widget (App.tsx)\<close>

text \<open>
  The three mini-games of \<^verbatim>\<open>type GameType = 'slots' | 'coin' | 'dice'\<close> and the two
  values of the \<^verbatim>\<open>result\<close> field of a history entry.
\<close>

datatype GameType = Slots | Coin | Dice

datatype RoundResult = Win | Loss

text \<open>
  An element of \<^verbatim>\<open>history: { game: string; result: 'win' | 'loss' }[]\<close>. The only value
  ever stored in \<^verbatim>\<open>game\<close> is \<^verbatim>\<open>prev.currentGame\<close>, so the field carries a game type.
\<close>

record HistoryEntry =
  game :: GameType
  result :: RoundResult

text \<open>
  \<^verbatim>\<open>interface GameState\<close>. The fields \<^verbatim>\<open>wins\<close> and \<^verbatim>\<open>balance\<close> are JavaScript numbers that
  only ever hold integers; they are unbounded integers here (exact below \<open>2^53\<close>).
  \<^verbatim>\<open>lastResult: string | null\<close> is an optional string.
\<close>

record GameState =
  wins :: int
  balance :: int
  showVault :: bool
  currentGame :: GameType
  isSpinning :: bool
  lastResult :: "string option"
  history :: "HistoryEntry list"

text \<open>The argument of \<^verbatim>\<open>useState<GameState>\<close> in \<^verbatim>\<open>App\<close>.\<close>

definition initialState :: GameState where
  "initialState =
     \<lparr>wins = 0, balance = 0, showVault = False, currentGame = Slots,
      isSpinning = False, lastResult = None, history = []\<rparr>"

subsection \<open>Rendering an integer in a template literal\<close>

text \<open>
  \<^verbatim>\<open>`+$${winAmount}!`\<close> converts the number to its decimal digits, with a leading minus
  sign for a negative integer.
\<close>

definition digitChar :: "nat \<Rightarrow> char" where
  "digitChar d = ''0123456789'' ! d"

function digitsOfNat :: "nat \<Rightarrow> string" where
  "digitsOfNat n = (if n < 10 then [digitChar n] else digitsOfNat (n div 10) @ [digitChar (n mod 10)])"
  by pat_completeness auto
termination
  by (relation "measure (\<lambda>n. n)") auto

declare digitsOfNat.simps [simp del]

definition numberToString :: "int \<Rightarrow> string" where
  "numberToString i = (if i < 0 then ''-'' @ digitsOfNat (nat (- i)) else digitsOfNat (nat i))"

subsection \<open>Arithmetic on JavaScript numbers\<close>

text \<open>
  A JavaScript number is an IEEE 754 double: 53 significant bits, with the exponent of
  the last bit at least \<open>-1074\<close>. A product is the exact product rounded to the nearest
  double, to the even one of two equally near. \<open>binExp x\<close> is the exponent of the leading
  bit of a positive \<open>x\<close>, \<open>ulp x\<close> the weight of the last bit of the doubles around \<open>x\<close>,
  and \<open>roundDouble x\<close> the double nearest to \<open>x\<close>. Overflow to infinity is left out:
  every number rounded here is below 128.
\<close>

fun bitLength :: "nat \<Rightarrow> nat" where
  "bitLength n = (if n = 0 then 0 else Suc (bitLength (n div 2)))"

declare bitLength.simps [simp del]

definition binExp :: "real \<Rightarrow> int" where
  "binExp x =
     (if 1 \<le> x then int (bitLength (nat \<lfloor>x\<rfloor>)) - 1
      else - int (bitLength (nat (\<lceil>1 / x\<rceil> - 1))))"

definition minNormalExp :: int where
  "minNormalExp = - 1022"

definition ulp :: "real \<Rightarrow> real" where
  "ulp x = 2 powi (max (binExp x) minNormalExp - 52)"

definition roundEven :: "real \<Rightarrow> int" where
  "roundEven y =
     (let f = \<lfloor>y\<rfloor>; d = y - of_int f
      in if d < 1 / 2 then f else if 1 / 2 < d then f + 1 else if even f then f else f + 1)"

definition roundDouble :: "real \<Rightarrow> real" where
  "roundDouble x = sgn x * (of_int (roundEven (\<bar>x\<bar> / ulp \<bar>x\<bar>)) * ulp \<bar>x\<bar>)"

text \<open>The literal \<^verbatim>\<open>0.4\<close> denotes the double nearest to 4/10.\<close>

definition double04 :: real where
  "double04 = roundDouble (4 / 10)"

subsection \<open>The three state updates of \<^verbatim>\<open>App\<close>\<close>

text \<open>
  \<^verbatim>\<open>Math.random()\<close> returns a double \<open>r\<close> with \<open>0 \<le> r < 1\<close>; every function that draws
  takes the drawn number as an argument. \<^verbatim>\<open>Math.floor(Math.random() * 101) + 400\<close>
  multiplies in double arithmetic; the floor is an integer below 101, so adding 400 is exact.
\<close>

definition validDraw :: "real \<Rightarrow> bool" where
  "validDraw r = (0 \<le> r \<and> r < 1 \<and> roundDouble r = r)"

definition winAmountOf :: "real \<Rightarrow> int" where
  "winAmountOf r = \<lfloor>roundDouble (r * 101)\<rfloor> + 400"

text \<open>
  \<^verbatim>\<open>handleWin\<close>: the draw of \<^verbatim>\<open>winAmount\<close> followed by the updater passed to \<^verbatim>\<open>setState\<close>.
  Sound and confetti are effects outside the state. \<^verbatim>\<open>slice(0, 5)\<close> is \<open>take 5\<close>.
\<close>

definition handleWin :: "real \<Rightarrow> GameState \<Rightarrow> GameState" where
  "handleWin r prev =
     (let winAmount = winAmountOf r;
          newWins = wins prev + 1;
          shouldOpenVault = (newWins \<ge> 3)
      in prev\<lparr>wins := newWins,
              balance := balance prev + winAmount,
              showVault := shouldOpenVault,
              lastResult := Some (''+$'' @ numberToString winAmount @ ''!''),
              history := take 5 (\<lparr>game = currentGame prev, result = Win\<rparr> # history prev)\<rparr>)"

text \<open>
  \<^verbatim>\<open>setGame\<close> is created at each render and closes over the \<^verbatim>\<open>state\<close> of that render. Its
  guard reads \<^verbatim>\<open>state.isSpinning\<close> of the rendered state, and the updater it passes to
  \<^verbatim>\<open>setState\<close> is applied to \<^verbatim>\<open>prev\<close>, the state with every earlier update applied. The two
  are the same state when no update is pending. The spec calls this operation
  \<^verbatim>\<open>selectGame\<close>.
\<close>

definition setGame :: "GameState \<Rightarrow> GameType \<Rightarrow> GameState \<Rightarrow> GameState" where
  "setGame rendered g prev =
     (if isSpinning rendered then prev else prev\<lparr>currentGame := g, lastResult := None\<rparr>)"

definition setIsSpinning :: "bool \<Rightarrow> GameState \<Rightarrow> GameState" where
  "setIsSpinning spinning prev = prev\<lparr>isSpinning := spinning\<rparr>"

subsection \<open>Sequences of operations\<close>

text \<open>
  The three operations the game modules and the game buttons perform on the session.
  \<open>OnWin\<close> carries the number that \<^verbatim>\<open>Math.random()\<close> returns inside \<^verbatim>\<open>handleWin\<close>, and
  \<open>SelectGame\<close> the state rendered when the button was clicked.
\<close>

datatype Op = OnWin real | SelectGame GameState GameType | SetSpinning bool

fun step :: "Op \<Rightarrow> GameState \<Rightarrow> GameState" where
  "step (OnWin r) st = handleWin r st"
| "step (SelectGame rendered g) st = setGame rendered g st"
| "step (SetSpinning b) st = setIsSpinning b st"

fun validOp :: "Op \<Rightarrow> bool" where
  "validOp (OnWin r) = validDraw r"
| "validOp (SelectGame rendered g) = True"
| "validOp (SetSpinning b) = True"

fun run :: "Op list \<Rightarrow> GameState \<Rightarrow> GameState" where
  "run [] st = st"
| "run (a # as) st = run as (step a st)"

text \<open>The states the session can be in: the initial one and every state an operation leads to.\<close>

inductive reachable :: "GameState \<Rightarrow> bool" where
  init: "reachable initialState"
| onWin: "reachable st \<Longrightarrow> validDraw r \<Longrightarrow> reachable (handleWin r st)"
| selectGame: "reachable st \<Longrightarrow> reachable (setGame rendered g st)"
| setSpinning: "reachable st \<Longrightarrow> reachable (setIsSpinning b st)"

text \<open>
  Bookkeeping for a run, used only to state properties: the entries of its wins in the order
  they happened (oldest first), and the numbers drawn at its wins.
\<close>

fun winLog :: "Op list \<Rightarrow> GameState \<Rightarrow> HistoryEntry list" where
  "winLog [] st = []"
| "winLog (OnWin r # as) st = \<lparr>game = currentGame st, result = Win\<rparr> # winLog as (step (OnWin r) st)"
| "winLog (SelectGame rendered g # as) st = winLog as (step (SelectGame rendered g) st)"
| "winLog (SetSpinning b # as) st = winLog as (step (SetSpinning b) st)"

fun drawsOf :: "Op list \<Rightarrow> real list" where
  "drawsOf [] = []"
| "drawsOf (OnWin r # as) = r # drawsOf as"
| "drawsOf (SelectGame rendered g # as) = drawsOf as"
| "drawsOf (SetSpinning b # as) = drawsOf as"

section \<open>The game modules\<close>

text \<open>
  A module receives \<^verbatim>\<open>isSpinning\<close> as a prop, the value of \<^verbatim>\<open>state.isSpinning\<close> in the render that
  drew it (the argument \<open>spinning\<close> below); the guard of \<^verbatim>\<open>spin\<close>, \<^verbatim>\<open>flip\<close> and \<^verbatim>\<open>roll\<close> reads
  this prop. A module runs timer callbacks that call \<^verbatim>\<open>Math.random()\<close>, \<^verbatim>\<open>setIsSpinning\<close> and
  \<^verbatim>\<open>onWin\<close>. The numbers \<^verbatim>\<open>Math.random()\<close> returns are a sequence \<open>rnd\<close>; the environment
  holds the session, the number of draws made so far, the number of timer callbacks run
  and the time in milliseconds, each timer firing exactly after its delay.
\<close>

type_synonym tape = "nat \<Rightarrow> real"

record Env =
  session :: GameState
  drawn :: nat
  ticks :: nat
  clock :: nat

definition random :: "tape \<Rightarrow> Env \<Rightarrow> real \<times> Env" where
  "random rnd e = (rnd (drawn e), e\<lparr>drawn := drawn e + 1\<rparr>)"

definition timerFires :: "nat \<Rightarrow> Env \<Rightarrow> Env" where
  "timerFires delay e = e\<lparr>ticks := ticks e + 1, clock := clock e + delay\<rparr>"

text \<open>\<^verbatim>\<open>onWin()\<close> is \<^verbatim>\<open>handleWin\<close>, which draws the amount itself.\<close>

definition onWin :: "tape \<Rightarrow> Env \<Rightarrow> Env" where
  "onWin rnd e = (let (r, e1) = random rnd e in e1\<lparr>session := handleWin r (session e1)\<rparr>)"

subsection \<open>\<^verbatim>\<open>SlotMachine\<close>\<close>

text \<open>
  The six reel symbols, in the order of the array \<^verbatim>\<open>symbols\<close>.
  \<^verbatim>\<open>symbols[Math.floor(Math.random() * symbols.length)]\<close> is \<^verbatim>\<open>undefined\<close> (here \<open>None\<close>)
  for an index outside the array.
\<close>

datatype Symbol = Cherry | Lemon | Bell | Diamond | Seven | Clover

definition symbols :: "Symbol list" where
  "symbols = [Cherry, Lemon, Bell, Diamond, Seven, Clover]"

definition pickSymbol :: "real \<Rightarrow> Symbol option" where
  "pickSymbol r =
     (let i = \<lfloor>roundDouble (r * real (length symbols))\<rfloor>
      in if 0 \<le> i \<and> i < int (length symbols) then Some (symbols ! nat i) else None)"

definition drawReels :: "tape \<Rightarrow> Env \<Rightarrow> Symbol option list \<times> Env" where
  "drawReels rnd e =
     (let (r1, e1) = random rnd e;
          (r2, e2) = random rnd e1;
          (r3, e3) = random rnd e2
      in ([pickSymbol r1, pickSymbol r2, pickSymbol r3], e3))"

text \<open>
  The body of \<^verbatim>\<open>if (iterations > 20)\<close> in the interval callback of \<^verbatim>\<open>spin\<close>. The result is
  the reels shown, whether \<^verbatim>\<open>onWin\<close> was called, and the environment.
\<close>

definition spinFinish :: "tape \<Rightarrow> Env \<Rightarrow> Symbol option list \<times> RoundResult \<times> Env" where
  "spinFinish rnd e =
     (let e0 = e\<lparr>session := setIsSpinning False (session e)\<rparr>;
          (finalReels, e1) = drawReels rnd e0;
          (c, e2) = random rnd e1
      in if c > double04 then
           (let (w, e3) = random rnd e2;
                winSym = pickSymbol w
            in ([winSym, winSym, winSym], Win, onWin rnd e3))
         else if finalReels ! 0 = finalReels ! 1 \<and> finalReels ! 1 = finalReels ! 2 then
           (finalReels, Win, onWin rnd e2)
         else (finalReels, Loss, e2))"

text \<open>The interval callback, fired every 100 ms, with the counter \<^verbatim>\<open>iterations\<close> before the call.\<close>

function spinInterval :: "tape \<Rightarrow> nat \<Rightarrow> Env \<Rightarrow> Symbol option list \<times> RoundResult \<times> Env" where
  "spinInterval rnd iterations e =
     (if iterations + 1 > 20 then spinFinish rnd (snd (drawReels rnd (timerFires 100 e)))
      else spinInterval rnd (iterations + 1) (snd (drawReels rnd (timerFires 100 e))))"
  by pat_completeness auto
termination
  by (relation "measure (\<lambda>(rnd, iterations, e). 21 - iterations)") auto

declare spinInterval.simps [simp del]

definition spin ::
  "tape \<Rightarrow> bool \<Rightarrow> Symbol option list \<Rightarrow> Env \<Rightarrow> Symbol option list \<times> RoundResult option \<times> Env" where
  "spin rnd spinning reels e =
     (if spinning then (reels, None, e)
      else (let e0 = e\<lparr>session := setIsSpinning True (session e)\<rparr>;
                (reels', res, e1) = spinInterval rnd 0 e0
            in (reels', Some res, e1)))"

subsection \<open>\<^verbatim>\<open>CoinFlip\<close>\<close>

datatype CoinSide = Heads | Tails

text \<open>
  The callback of \<^verbatim>\<open>setTimeout\<close> in \<^verbatim>\<open>flip\<close>, and \<^verbatim>\<open>flip\<close> itself. The literal \<^verbatim>\<open>0.5\<close> is
  the double 1/2.
\<close>

definition flipFinish :: "tape \<Rightarrow> CoinSide \<Rightarrow> Env \<Rightarrow> CoinSide \<times> RoundResult \<times> Env" where
  "flipFinish rnd userChoice e =
     (let (r, e1) = random rnd e;
          result = (if r > 5 / 10 then Heads else Tails);
          e2 = e1\<lparr>session := setIsSpinning False (session e1)\<rparr>
      in if result = userChoice then (result, Win, onWin rnd e2) else (result, Loss, e2))"

definition flip ::
  "tape \<Rightarrow> bool \<Rightarrow> CoinSide \<Rightarrow> CoinSide \<Rightarrow> Env \<Rightarrow> CoinSide \<times> RoundResult option \<times> Env" where
  "flip rnd spinning userChoice side e =
     (if spinning then (side, None, e)
      else (let e0 = e\<lparr>session := setIsSpinning True (session e)\<rparr>;
                (side', res, e1) = flipFinish rnd userChoice (timerFires 1000 e0)
            in (side', Some res, e1)))"

subsection \<open>\<^verbatim>\<open>DiceRoll\<close>\<close>

text \<open>\<^verbatim>\<open>Math.floor(Math.random() * 6) + 1\<close>, the product in double arithmetic.\<close>

definition rollDie :: "real \<Rightarrow> int" where
  "rollDie r = \<lfloor>roundDouble (r * 6)\<rfloor> + 1"

text \<open>The body of \<^verbatim>\<open>if (count > 15)\<close> in the interval callback of \<^verbatim>\<open>roll\<close>.\<close>

definition rollFinish :: "tape \<Rightarrow> Env \<Rightarrow> int \<times> RoundResult \<times> Env" where
  "rollFinish rnd e =
     (let (r, e1) = random rnd e;
          final = rollDie r;
          e2 = e1\<lparr>session := setIsSpinning False (session e1)\<rparr>
      in if final > 3 then (final, Win, onWin rnd e2) else (final, Loss, e2))"

text \<open>The interval callback, fired every 80 ms, with the counter \<^verbatim>\<open>count\<close> before the call.\<close>

function rollInterval :: "tape \<Rightarrow> nat \<Rightarrow> Env \<Rightarrow> int \<times> RoundResult \<times> Env" where
  "rollInterval rnd count e =
     (if count + 1 > 15 then rollFinish rnd (snd (random rnd (timerFires 80 e)))
      else rollInterval rnd (count + 1) (snd (random rnd (timerFires 80 e))))"
  by pat_completeness auto
termination
  by (relation "measure (\<lambda>(rnd, count, e). 16 - count)") auto

declare rollInterval.simps [simp del]

definition roll :: "tape \<Rightarrow> bool \<Rightarrow> int \<Rightarrow> Env \<Rightarrow> int \<times> RoundResult option \<times> Env" where
  "roll rnd spinning dice e =
     (if spinning then (dice, None, e)
      else (let e0 = e\<lparr>session := setIsSpinning True (session e)\<rparr>;
                (dice', res, e1) = rollInterval rnd 0 e0
            in (dice', Some res, e1)))"

subsection \<open>Events over uniform draws\<close>

text \<open>
  An interval of draws with each end included or not, and a box: one interval for each of
  several draws. When the draws are independent and uniform on \<open>[0, 1)\<close>, the probability
  that they fall in a box inside the unit cube is the product of the lengths of its
  intervals; the probability of a union of boxes is at most the sum over the boxes, and
  equal to it when no two of them share a point.
\<close>

datatype Interval = Interval bool real real bool

fun inInterval :: "real \<Rightarrow> Interval \<Rightarrow> bool" where
  "inInterval x (Interval loIn lo hi hiIn) =
     ((if loIn then lo \<le> x else lo < x) \<and> (if hiIn then x \<le> hi else x < hi))"

fun intervalLength :: "Interval \<Rightarrow> real" where
  "intervalLength (Interval loIn lo hi hiIn) = hi - lo"

type_synonym Box = "Interval list"

definition inBox :: "real list \<Rightarrow> Box \<Rightarrow> bool" where
  "inBox xs b = list_all2 inInterval xs b"

definition boxVolume :: "Box \<Rightarrow> real" where
  "boxVolume b = prod_list (map intervalLength b)"

definition unitInterval :: Interval where
  "unitInterval = Interval True 0 1 False"

text \<open>
  The draws \<open>r\<close> for which \<^verbatim>\<open>Math.floor(r * n)\<close> is \<open>k\<close> are those of \<open>[k/n, (k+1)/n)\<close> up to
  the rounding of the product, which moves either end by less than \<open>2^-53\<close>: they include
  the first interval below and lie in the second.
\<close>

definition floorInner :: "nat \<Rightarrow> int \<Rightarrow> Interval" where
  "floorInner n k = Interval True (of_int k / real n) ((of_int k + 1) / real n - 1 / 2 ^ 53) False"

definition floorOuter :: "nat \<Rightarrow> int \<Rightarrow> Interval" where
  "floorOuter n k = Interval True (of_int k / real n - 1 / 2 ^ 53) ((of_int k + 1) / real n) False"

text \<open>
  The draws of the final slot tick, in the order \<open>[reel 1, reel 2, reel 3, c]\<close>: \<open>c\<close> above
  \<^verbatim>\<open>0.4\<close> with any reels, and \<open>c\<close> at most \<^verbatim>\<open>0.4\<close> with all three reels on the \<open>k\<close>-th symbol,
  the latter from inside and from outside. The sums of the volumes bound the probability of
  a win from below and from above.
\<close>

definition slotForcedBox :: Box where
  "slotForcedBox = [unitInterval, unitInterval, unitInterval, Interval False double04 1 False]"

definition slotMatchInner :: "nat \<Rightarrow> Box" where
  "slotMatchInner k =
     [floorInner 6 (int k), floorInner 6 (int k), floorInner 6 (int k), Interval True 0 double04 True]"

definition slotMatchOuter :: "nat \<Rightarrow> Box" where
  "slotMatchOuter k =
     [floorOuter 6 (int k), floorOuter 6 (int k), floorOuter 6 (int k), Interval True 0 double04 True]"

definition slotInnerBoxes :: "Box list" where
  "slotInnerBoxes = slotForcedBox # map slotMatchInner [0..<6]"

definition slotOuterBoxes :: "Box list" where
  "slotOuterBoxes = slotForcedBox # map slotMatchOuter [0..<6]"

definition slotWinLower :: real where
  "slotWinLower = sum_list (map boxVolume slotInnerBoxes)"

definition slotWinUpper :: real where
  "slotWinUpper = sum_list (map boxVolume slotOuterBoxes)"

definition diceWinInterval :: Interval where
  "diceWinInterval = Interval True (1 / 2) 1 False"

subsection \<open>Sample runs\<close>

text \<open>
  The environment when the page has loaded, and three sequences of draws used to run the
  modules on concrete input: one on which each module loses, one on which the slot machine
  wins by the forced branch and the dice win, and one on which the slot machine wins by
  three equal reels.
\<close>

definition startEnv :: Env where
  "startEnv = \<lparr>session = initialState, drawn = 0, ticks = 0, clock = 0\<rparr>"

definition lossTape :: tape where
  "lossTape n = (if even n then 0 else 1 / 4)"

definition winTape :: tape where
  "winTape n = 3 / 4"

definition matchTape :: tape where
  "matchTape n = 1 / 4"

section \<open>Properties of the double arithmetic\<close>

lemma bitLength_bounds: "0 < n \<Longrightarrow> 2 ^ (bitLength n - 1) \<le> n \<and> n < 2 ^ bitLength n"
proof (induction n rule: bitLength.induct)
  case (1 n)
  show ?case
  proof (cases "n div 2 = 0")
    case True
    with "1.prems" have "n = 1" by (simp add: div_eq_0_iff) 
    then show ?thesis by (simp add: bitLength.simps)
  next
    case False
    then have ih: "2 ^ (bitLength (n div 2) - 1) \<le> n div 2 \<and> n div 2 < 2 ^ bitLength (n div 2)"
      using "1.IH" "1.prems" by simp
    from False have pos: "0 < bitLength (n div 2)"
      by (subst bitLength.simps) simp
    have b: "bitLength n = Suc (bitLength (n div 2))"
      using "1.prems" by (subst bitLength.simps) simp
    from pos have e: "2 ^ bitLength (n div 2) = 2 * (2::nat) ^ (bitLength (n div 2) - 1)"
      by (cases "bitLength (n div 2)") simp_all
    from ih have "2 * 2 ^ (bitLength (n div 2) - 1) \<le> n" by linarith
    moreover from ih have "n < 2 * 2 ^ bitLength (n div 2)" by linarith
    ultimately show ?thesis by (simp add: b e)
  qed
qed

lemma bitLength_pos: "0 < n \<Longrightarrow> 0 < bitLength n"
  by (subst bitLength.simps) simp

lemma binExp_bounds:
  assumes "0 < x"
  shows "2 powi binExp x \<le> x \<and> x < 2 powi (binExp x + 1)"
proof (cases "1 \<le> x")
  case True
  let ?n = "nat \<lfloor>x\<rfloor>"
  from True have n: "0 < ?n" by simp
  then have L: "0 < bitLength ?n" by (rule bitLength_pos)
  from bitLength_bounds [OF n] have lo: "2 ^ (bitLength ?n - 1) \<le> ?n" and hi: "?n < 2 ^ bitLength ?n"
    by simp_all
  have e: "binExp x = int (bitLength ?n - 1)"
    using True L by (simp add: binExp_def)
  have e1: "binExp x + 1 = int (bitLength ?n)"
    using True L by (simp add: binExp_def)
  have "real ?n \<le> x" using True by simp
  moreover from lo have "(2::real) ^ (bitLength ?n - 1) \<le> real ?n"
    by (metis of_nat_le_iff of_nat_numeral of_nat_power)
  ultimately have A: "2 powi binExp x \<le> x"
    by (simp only: e power_int_of_nat)
  have "x < real ?n + 1" using True by linarith
  moreover from hi have "real ?n + 1 \<le> (2::real) ^ bitLength ?n"
    by (metis Suc_leI of_nat_Suc of_nat_le_iff of_nat_numeral of_nat_power add.commute)
  ultimately have B: "x < 2 powi (binExp x + 1)"
    by (simp only: e1 power_int_of_nat)
  from A B show ?thesis by simp
next
  case False
  let ?n = "nat (\<lceil>1 / x\<rceil> - 1)"
  from False assms have big: "1 < 1 / x" by simp
  then have c: "2 \<le> \<lceil>1 / x\<rceil>" by linarith
  then have n: "0 < ?n" by simp
  then have L: "0 < bitLength ?n" by (rule bitLength_pos)
  from bitLength_bounds [OF n] have lo: "2 ^ (bitLength ?n - 1) \<le> ?n" and hi: "?n < 2 ^ bitLength ?n"
    by simp_all
  have e: "binExp x = - int (bitLength ?n)"
    using False by (simp add: binExp_def)
  have e1: "binExp x + 1 = - int (bitLength ?n - 1)"
    using False L by (simp add: binExp_def)
  from c have nn: "0 \<le> \<lceil>1 / x\<rceil> - 1" by linarith
  have "real ?n = of_int (\<lceil>1 / x\<rceil> - 1)" using nn by (rule of_nat_nat)
  then have rn: "real ?n = of_int \<lceil>1 / x\<rceil> - 1" by (simp only: of_int_diff of_int_1)
  have up: "1 / x \<le> real ?n + 1" by (simp add: rn)
  have dn: "real ?n < 1 / x" using rn by linarith
  from hi have "real ?n + 1 \<le> (2::real) ^ bitLength ?n"
    by (metis Suc_leI of_nat_Suc of_nat_le_iff of_nat_numeral of_nat_power add.commute)
  with up have "1 / x \<le> 2 ^ bitLength ?n" by linarith
  then have "1 / 2 ^ bitLength ?n \<le> x"
    using assms by (simp add: field_simps)
  then have A: "2 powi binExp x \<le> x"
    by (simp add: e power_int_minus_divide)
  from lo have "(2::real) ^ (bitLength ?n - 1) \<le> real ?n"
    by (metis of_nat_le_iff of_nat_numeral of_nat_power)
  with dn have "2 ^ (bitLength ?n - 1) < 1 / x" by linarith
  then have "x < 1 / 2 ^ (bitLength ?n - 1)"
    using assms by (simp add: field_simps)
  then have B: "x < 2 powi (binExp x + 1)"
    by (simp only: e1 power_int_minus_divide power_int_of_nat)
  from A B show ?thesis by simp
qed

lemma binExp_ge: "0 < x \<Longrightarrow> 2 powi a \<le> x \<Longrightarrow> a \<le> binExp x"
proof (rule ccontr)
  assume x: "0 < x" and a: "2 powi a \<le> x" and n: "\<not> a \<le> binExp x"
  then have "binExp x + 1 \<le> a" by simp
  then have "(2::real) powi (binExp x + 1) \<le> 2 powi a"
    by (intro power_int_increasing) simp_all
  with binExp_bounds [OF x] a show False by linarith
qed

lemma binExp_lt: "0 < x \<Longrightarrow> x < 2 powi b \<Longrightarrow> binExp x < b"
proof (rule ccontr)
  assume x: "0 < x" and b: "x < 2 powi b" and n: "\<not> binExp x < b"
  then have "b \<le> binExp x" by simp
  then have "(2::real) powi b \<le> 2 powi binExp x"
    by (intro power_int_increasing) simp_all
  with binExp_bounds [OF x] b show False by linarith
qed

lemma roundEven_upper: "of_int (roundEven y) \<le> y + 1 / 2"
  by (simp add: roundEven_def Let_def) linarith

lemma roundEven_lower: "y - 1 / 2 \<le> of_int (roundEven y)"
  by (simp add: roundEven_def Let_def) linarith

lemma roundEven_ge_int: "of_int N \<le> y \<Longrightarrow> N \<le> roundEven y"
proof -
  assume "of_int N \<le> y"
  then have "N \<le> \<lfloor>y\<rfloor>" by (simp add: le_floor_iff)
  then show ?thesis by (simp add: roundEven_def Let_def)
qed

lemma roundEven_of_int: "roundEven (of_int N) = N"
  by (simp add: roundEven_def Let_def)

lemma ulp_pos: "0 < ulp x"
  by (simp add: ulp_def)

lemma roundDouble_nonneg: "0 \<le> x \<Longrightarrow> roundDouble x = of_int (roundEven (x / ulp x)) * ulp x"
  by (cases "x = 0") (simp_all add: roundDouble_def roundEven_def)

lemma roundDouble_ge_0: "0 \<le> x \<Longrightarrow> 0 \<le> roundDouble x"
proof -
  assume x: "0 \<le> x"
  then have "of_int 0 \<le> x / ulp x" using ulp_pos [of x] by simp
  then have "0 \<le> roundEven (x / ulp x)" by (rule roundEven_ge_int)
  then show ?thesis using x ulp_pos [of x] by (simp add: roundDouble_nonneg)
qed

lemma roundDouble_upper: "0 \<le> x \<Longrightarrow> roundDouble x \<le> x + ulp x / 2"
proof -
  assume x: "0 \<le> x"
  have "of_int (roundEven (x / ulp x)) * ulp x \<le> (x / ulp x + 1 / 2) * ulp x"
    using roundEven_upper [of "x / ulp x"] ulp_pos [of x] by (simp only: mult_le_cancel_right_pos)
  also have "\<dots> = x + ulp x / 2"
    using ulp_pos [of x] by (simp add: field_simps)
  finally show ?thesis using x by (simp add: roundDouble_nonneg)
qed

lemma pow2_minNormal_small: "(2::real) powi minNormalExp \<le> 1 / 4"
proof -
  have "(2::real) powi minNormalExp \<le> 2 powi (- 2)"
    by (intro power_int_increasing) (simp_all add: minNormalExp_def)
  then show ?thesis by simp
qed

lemma roundDouble_small: "0 \<le> x \<Longrightarrow> x < 2 powi minNormalExp \<Longrightarrow> roundDouble x < 1"
proof (cases "x = 0")
  case True
  then show ?thesis by (simp add: roundDouble_def)
next
  case False
  assume x: "0 \<le> x" and s: "x < 2 powi minNormalExp"
  from False x have "0 < x" by simp
  then have "binExp x < minNormalExp" using s by (rule binExp_lt)
  then have u: "ulp x = 2 powi (minNormalExp - 52)" by (simp add: ulp_def max_def)
  have "(2::real) powi (minNormalExp - 52) \<le> 2 powi minNormalExp"
    by (intro power_int_increasing) simp_all
  then have "ulp x \<le> 2 powi minNormalExp" by (simp only: u)
  then have "ulp x \<le> 1 / 4" using pow2_minNormal_small by linarith
  moreover have "roundDouble x \<le> x + ulp x / 2" using x by (rule roundDouble_upper)
  ultimately show ?thesis using s pow2_minNormal_small by linarith
qed

lemma roundDouble_normal: "2 powi minNormalExp \<le> x \<Longrightarrow> roundDouble x \<le> x * (1 + 1 / 2 ^ 53)"
proof -
  assume n: "2 powi minNormalExp \<le> x"
  have "(0::real) < 2 powi minNormalExp" by (rule zero_less_power_int) simp
  with n have x: "0 < x" by linarith
  from x n have e: "minNormalExp \<le> binExp x" by (rule binExp_ge)
  then have u: "ulp x = 2 powi (binExp x - 52)" by (simp add: ulp_def max_def)
  have "2 powi (binExp x - 52) = 2 powi binExp x * (2::real) powi (- 52)"
    by (simp add: power_int_diff)
  then have "ulp x / 2 = 2 powi binExp x / 2 ^ 53"
    by (simp add: u power_int_minus_divide)
  also have "\<dots> \<le> x / 2 ^ 53"
    using binExp_bounds [OF x] by (simp add: divide_right_mono)
  finally have "ulp x / 2 \<le> x / 2 ^ 53" .
  moreover have "roundDouble x \<le> x + ulp x / 2" using x by (intro roundDouble_upper) simp
  ultimately show ?thesis by (simp add: algebra_simps)
qed

lemma roundDouble_ge_int:
  assumes "0 \<le> K" and "of_int K \<le> x" and "x < 2 ^ 53"
  shows "of_int K \<le> roundDouble x"
proof (cases "K = 0")
  case True
  with assms show ?thesis using roundDouble_ge_0 [of x] by simp
next
  case False
  with assms have x1: "1 \<le> x" by linarith
  then have x: "0 < x" by simp
  have "(2::real) powi 0 \<le> x" using x1 by simp
  with x have e0: "0 \<le> binExp x" by (rule binExp_ge)
  have "x < 2 powi 53" using assms(3) by simp
  with x have e1: "binExp x < 53" by (rule binExp_lt)
  obtain m where m: "m = nat (52 - binExp x)" by simp
  from e0 e1 have u: "ulp x = 1 / 2 ^ m"
    by (simp add: ulp_def max_def minNormalExp_def m power_int_def power_one_over)
  have "of_int (K * 2 ^ m) \<le> x / ulp x"
    using assms(2) by (simp add: u)
  then have "K * 2 ^ m \<le> roundEven (x / ulp x)" by (rule roundEven_ge_int)
  then have "of_int (K * 2 ^ m) \<le> (of_int (roundEven (x / ulp x)) :: real)"
    by (simp only: of_int_le_iff)
  then have "of_int K \<le> of_int (roundEven (x / ulp x)) * ulp x"
    by (simp add: u field_simps)
  then show ?thesis using x by (simp add: roundDouble_nonneg)
qed

lemma roundDouble_lt_int:
  assumes "0 \<le> x" and "1 \<le> K" and "x * (1 + 1 / 2 ^ 53) < of_int K"
  shows "roundDouble x < of_int K"
proof (cases "x < 2 powi minNormalExp")
  case True
  with assms(1) have "roundDouble x < 1" by (rule roundDouble_small)
  with assms(2) show ?thesis by simp
next
  case False
  then have "roundDouble x \<le> x * (1 + 1 / 2 ^ 53)" by (intro roundDouble_normal) simp
  with assms(3) show ?thesis by linarith
qed

lemma floor_round_suff:
  assumes "0 \<le> k" and "of_int k \<le> x" and "x * (1 + 1 / 2 ^ 53) < of_int k + 1" and "x < 2 ^ 53"
  shows "\<lfloor>roundDouble x\<rfloor> = k"
proof -
  from assms(1,2) have x: "0 \<le> x" by linarith
  have lo: "of_int k \<le> roundDouble x" using assms(1,2,4) by (rule roundDouble_ge_int)
  have "roundDouble x < of_int (k + 1)"
    using x assms(1,3) by (intro roundDouble_lt_int) simp_all
  with lo show ?thesis by (simp add: floor_eq_iff)
qed

lemma floor_round_nec:
  assumes "0 \<le> x" and "x < 2 ^ 53" and "\<lfloor>roundDouble x\<rfloor> = k"
  shows "0 \<le> k \<and> of_int k \<le> x * (1 + 1 / 2 ^ 53) \<and> x < of_int k + 1"
proof -
  from assms(3) have lo: "of_int k \<le> roundDouble x" and hi: "roundDouble x < of_int k + 1"
    by (simp_all add: floor_eq_iff)
  from roundDouble_ge_0 [OF assms(1)] hi have "(0::real) < of_int k + 1" by linarith
  then have k0: "0 \<le> k" by linarith
  have up: "x < of_int k + 1"
  proof (rule ccontr)
    assume "\<not> x < of_int k + 1"
    then have "of_int (k + 1) \<le> x" by simp
    with k0 have "of_int (k + 1) \<le> roundDouble x"
      using assms(2) by (intro roundDouble_ge_int) simp_all
    with hi show False by simp
  qed
  have dn: "of_int k \<le> x * (1 + 1 / 2 ^ 53)"
  proof (cases "k = 0")
    case True
    with assms(1) show ?thesis by simp
  next
    case False
    with k0 lo have "1 \<le> roundDouble x" by linarith
    then have "\<not> x < 2 powi minNormalExp"
      using roundDouble_small [OF assms(1)] by linarith
    then have "roundDouble x \<le> x * (1 + 1 / 2 ^ 53)" by (intro roundDouble_normal) simp
    with lo show ?thesis by linarith
  qed
  from k0 up dn show ?thesis by simp
qed

lemma double_below:
  assumes "0 \<le> r" and "roundDouble r = r" and "r < 2 powi a" and "minNormalExp < a"
  shows "r \<le> 2 powi a - 2 powi (a - 53)"
proof (cases "r < 2 powi (a - 1)")
  case True
  have "(2::real) powi (a - 53) \<le> 2 powi (a - 1)"
    by (intro power_int_increasing) simp_all
  moreover have "(2::real) powi a = 2 * 2 powi (a - 1)"
    by (simp add: power_int_diff)
  ultimately show ?thesis using True by linarith
next
  case False
  define u :: real where "u = 2 powi (a - 53)"
  have up: "0 < u" by (simp add: u_def)
  have p: "(0::real) < 2 powi (a - 1)" by simp
  with False have x: "0 < r" by linarith
  from False have "2 powi (a - 1) \<le> r" by simp
  with x have "a - 1 \<le> binExp r" by (rule binExp_ge)
  moreover from x assms(3) have "binExp r < a" by (rule binExp_lt)
  ultimately have e: "binExp r = a - 1" by simp
  have mx: "max (binExp r) minNormalExp - 52 = a - 53"
    using assms(4) e by linarith
  have ur: "ulp r = u"
    by (simp only: ulp_def mx u_def)
  define N where "N = roundEven (r / ulp r)"
  have r: "r = of_int N * u"
    using assms(1,2) by (simp add: roundDouble_nonneg N_def ur [symmetric])
  have "(2::real) powi a = 2 powi (53 + (a - 53))" by simp
  also have "\<dots> = 2 powi 53 * 2 powi (a - 53)" by (rule power_int_add) simp
  finally have t: "(2::real) powi a = 2 ^ 53 * u" by (simp add: u_def)
  have "of_int N * u < 2 ^ 53 * u"
    using assms(3) r t by simp
  then have "(of_int N :: real) < 2 ^ 53"
    using up by (simp only: mult_less_cancel_right_pos)
  then have "N < 2 ^ 53" by simp
  then have "N \<le> 2 ^ 53 - 1" by simp
  then have "(of_int N :: real) \<le> of_int (2 ^ 53 - 1)"
    by (simp only: of_int_le_iff)
  then have "(of_int N :: real) \<le> 2 ^ 53 - 1" by simp
  then have "of_int N * u \<le> (2 ^ 53 - 1) * u"
    using up by (simp only: mult_le_cancel_right_pos)
  also have "\<dots> = 2 ^ 53 * u - u" by (simp add: algebra_simps)
  finally have "r \<le> 2 powi a - u" by (simp only: r t)
  then show ?thesis by (simp only: u_def)
qed

subsection \<open>The floor of a draw times an integer\<close>

lemma validDraw_below_one: "validDraw r \<Longrightarrow> r \<le> 1 - 1 / 2 ^ 53"
proof -
  assume v: "validDraw r"
  then have "r < 2 powi 0" by (simp add: validDraw_def)
  with v have "r \<le> 2 powi 0 - 2 powi (0 - 53)"
    by (intro double_below) (simp_all add: validDraw_def minNormalExp_def)
  then show ?thesis by (simp add: power_int_minus_divide)
qed

lemma validDraw_below_half: "validDraw r \<Longrightarrow> r < 1 / 2 \<Longrightarrow> r \<le> 1 / 2 - 1 / 2 ^ 54"
proof -
  assume v: "validDraw r" and h: "r < 1 / 2"
  then have "r < 2 powi (- 1)" by (simp add: power_int_minus_divide)
  with v have "r \<le> 2 powi (- 1) - 2 powi (- 1 - 53)"
    by (intro double_below) (simp_all add: validDraw_def minNormalExp_def)
  then show ?thesis by (simp add: power_int_minus_divide)
qed

lemma floor_mul_bounds:
  assumes "validDraw r" and "0 < n" and "real n \<le> 2 ^ 53"
  shows "0 \<le> \<lfloor>roundDouble (r * real n)\<rfloor> \<and> \<lfloor>roundDouble (r * real n)\<rfloor> < int n"
proof -
  define x where "x = r * real n"
  define eps :: real where "eps = 1 / 2 ^ 53"
  have ep: "0 < eps" by (simp add: eps_def)
  from assms(1) have r0: "0 \<le> r" and r1: "r \<le> 1 - eps"
    using validDraw_below_one by (simp_all add: validDraw_def eps_def)
  from assms(2) have n: "0 < real n" by simp
  have x0: "0 \<le> x" using r0 n by (simp add: x_def)
  have "x \<le> (1 - eps) * real n" using r1 n by (simp add: x_def)
  then have xn: "x \<le> real n - eps * real n" by (simp add: algebra_simps)
  have "eps * real n > 0" using ep n by simp
  with xn have xlt: "x < real n" by linarith
  then have "x * eps < real n * eps" using ep by simp
  with xn have "x * (1 + eps) < real n" by (simp add: algebra_simps)
  then have "x * (1 + 1 / 2 ^ 53) < of_int (int n)" by (simp add: eps_def)
  with x0 have "roundDouble x < of_int (int n)"
    using assms(2) by (intro roundDouble_lt_int) simp_all
  then have hi: "\<lfloor>roundDouble x\<rfloor> < int n" by (simp add: floor_less_iff)
  have "0 \<le> \<lfloor>roundDouble x\<rfloor>" using roundDouble_ge_0 [OF x0] by simp
  with hi show ?thesis by (simp add: x_def)
qed

lemma floor_mul_inner:
  assumes "validDraw r" and "0 < n" and "real n \<le> 2 ^ 53" and "inInterval r (floorInner n k)"
  shows "\<lfloor>roundDouble (r * real n)\<rfloor> = k"
proof -
  define x where "x = r * real n"
  define eps :: real where "eps = 1 / 2 ^ 53"
  have ep: "0 < eps" by (simp add: eps_def)
  from assms(2) have n: "0 < real n" by simp
  from assms(1) have r0: "0 \<le> r" and r1: "r < 1" by (simp_all add: validDraw_def)
  from assms(4) have lo: "of_int k / real n \<le> r" and hi: "r < (of_int k + 1) / real n - eps"
    by (simp_all add: floorInner_def eps_def)
  have x0: "0 \<le> x" using r0 n by (simp add: x_def)
  have xn: "x < real n" using r1 n by (simp add: x_def)
  from lo n have kx: "of_int k \<le> x" by (simp add: x_def field_simps)
  from hi have "r + eps < (of_int k + 1) / real n" by simp
  then have "(r + eps) * real n < of_int k + 1" using n by (simp add: field_simps)
  then have xk: "x + eps * real n < of_int k + 1" by (simp add: x_def algebra_simps)
  have "x * eps < real n * eps" using xn ep by simp
  with xk have up: "x * (1 + eps) < of_int k + 1" by (simp add: algebra_simps)
  have "0 < eps * real n" using ep n by simp
  with xk x0 have "(0::real) < of_int k + 1" by linarith
  then have k0: "0 \<le> k" by linarith
  have "x < 2 ^ 53" using xn assms(3) by linarith
  with k0 kx up have "\<lfloor>roundDouble x\<rfloor> = k"
    by (intro floor_round_suff) (simp_all add: eps_def)
  then show ?thesis by (simp add: x_def)
qed

lemma floor_mul_outer:
  assumes "validDraw r" and "0 < n" and "real n \<le> 2 ^ 53" and "\<lfloor>roundDouble (r * real n)\<rfloor> = k"
  shows "inInterval r (floorOuter n k)"
proof -
  define x where "x = r * real n"
  define eps :: real where "eps = 1 / 2 ^ 53"
  have ep: "0 < eps" by (simp add: eps_def)
  from assms(2) have n: "0 < real n" by simp
  from assms(1) have r0: "0 \<le> r" and r1: "r < 1" by (simp_all add: validDraw_def)
  have x0: "0 \<le> x" using r0 n by (simp add: x_def)
  have xn: "x < real n" using r1 n by (simp add: x_def)
  have x53: "x < 2 ^ 53" using xn assms(3) by linarith
  from assms(4) have "\<lfloor>roundDouble x\<rfloor> = k" by (simp add: x_def)
  with x0 x53 have nec: "of_int k \<le> x * (1 + 1 / 2 ^ 53) \<and> x < of_int k + 1"
    using floor_round_nec by blast
  then have dn: "of_int k \<le> x + x * eps" and up: "x < of_int k + 1"
    by (simp_all add: eps_def algebra_simps)
  have "x * eps < real n * eps" using xn ep by simp
  with dn have "of_int k - real n * eps \<le> x" by linarith
  moreover have "(of_int k / real n - eps) * real n = of_int k - real n * eps"
    using n by (simp add: field_simps)
  ultimately have "(of_int k / real n - eps) * real n \<le> r * real n"
    by (simp only: x_def)
  then have a: "of_int k / real n - eps \<le> r"
    using n by (simp only: mult_le_cancel_right_pos)
  from up have "r * real n < ((of_int k + 1) / real n) * real n"
    using n by (simp add: x_def)
  then have b: "r < (of_int k + 1) / real n"
    using n by (simp only: mult_less_cancel_right_pos)
  from a b show ?thesis by (simp add: floorOuter_def eps_def)
qed

section \<open>Properties of the state updates\<close>

lemmas double_eval =
  roundDouble_def ulp_def minNormalExp_def binExp_def roundEven_def bitLength.simps Let_def

lemma winAmountOf_bounds: "validDraw r \<Longrightarrow> 400 \<le> winAmountOf r \<and> winAmountOf r \<le> 500"
  using floor_mul_bounds [of r 101] by (simp add: winAmountOf_def)

lemma winAmountOf_inner: "validDraw r \<Longrightarrow> inInterval r (floorInner 101 k) \<Longrightarrow> winAmountOf r = 400 + k"
  using floor_mul_inner [of r 101 k] by (simp add: winAmountOf_def)

lemma winAmountOf_outer: "validDraw r \<Longrightarrow> winAmountOf r = 400 + k \<Longrightarrow> inInterval r (floorOuter 101 k)"
  using floor_mul_outer [of r 101 k] by (simp add: winAmountOf_def)

lemma floor_interval_lengths:
  "0 < n \<Longrightarrow> intervalLength (floorInner n k) = 1 / real n - 1 / 2 ^ 53 \<and>
     intervalLength (floorOuter n k) = 1 / real n + 1 / 2 ^ 53"
  by (simp add: floorInner_def floorOuter_def field_simps)

text \<open>
  C4 (amended). \<open>setGame\<close> returns \<open>prev\<close> as it is when the rendered state is spinning;
  otherwise it sets \<open>currentGame\<close> of \<open>prev\<close> to \<open>g\<close>, clears its \<open>lastResult\<close> and leaves every
  other field as it was. When no update is pending the rendered state is \<open>prev\<close> itself,
  and then \<open>setGame\<close> does nothing to a spinning state and selects the game in any other.
\<close>

theorem setGame_spec:
  "(isSpinning rendered \<longrightarrow> setGame rendered g prev = prev) \<and>
   (\<not> isSpinning rendered \<longrightarrow>
      setGame rendered g prev = prev\<lparr>currentGame := g, lastResult := None\<rparr> \<and>
      currentGame (setGame rendered g prev) = g \<and> lastResult (setGame rendered g prev) = None \<and>
      wins (setGame rendered g prev) = wins prev \<and> balance (setGame rendered g prev) = balance prev \<and>
      showVault (setGame rendered g prev) = showVault prev \<and>
      isSpinning (setGame rendered g prev) = isSpinning prev \<and>
      history (setGame rendered g prev) = history prev) \<and>
   (isSpinning st \<longrightarrow> setGame st g st = st) \<and>
   (\<not> isSpinning st \<longrightarrow> setGame st g st = st\<lparr>currentGame := g, lastResult := None\<rparr>)"
  by (simp add: setGame_def)

theorem setGame_spec_witness:
  "isSpinning (initialState\<lparr>isSpinning := True\<rparr>) \<and>
   setGame (initialState\<lparr>isSpinning := True\<rparr>) Dice (initialState\<lparr>isSpinning := True\<rparr>) =
     initialState\<lparr>isSpinning := True\<rparr> \<and>
   setGame (initialState\<lparr>isSpinning := True\<rparr>) Dice initialState = initialState \<and>
   \<not> isSpinning (initialState\<lparr>lastResult := Some ''+$450!''\<rparr>) \<and>
   currentGame (setGame (initialState\<lparr>lastResult := Some ''+$450!''\<rparr>) Dice
     (initialState\<lparr>lastResult := Some ''+$450!''\<rparr>)) = Dice \<and>
   lastResult (setGame (initialState\<lparr>lastResult := Some ''+$450!''\<rparr>) Dice
     (initialState\<lparr>lastResult := Some ''+$450!''\<rparr>)) = None"
  using setGame_spec [of "initialState\<lparr>isSpinning := True\<rparr>" Dice initialState
      "initialState\<lparr>isSpinning := True\<rparr>"]
    setGame_spec [of "initialState\<lparr>lastResult := Some ''+$450!''\<rparr>" Dice
      "initialState\<lparr>lastResult := Some ''+$450!''\<rparr>" "initialState\<lparr>lastResult := Some ''+$450!''\<rparr>"]
  by (simp add: initialState_def)

text \<open>
  C4 as stated speaks of one state. The state \<open>initialState\<close> is not spinning, yet a click on
  the dice button handled while the last render still shows the spinning state (the update
  that ended the round is pending) leaves \<open>currentGame\<close> on the slot machine.
\<close>

theorem setGame_pending_counterexample:
  "\<not> isSpinning initialState \<and>
   currentGame (setGame (initialState\<lparr>isSpinning := True\<rparr>) Dice initialState) \<noteq> Dice"
  by (simp add: setGame_def initialState_def)

lemma digitsOfNat_three:
  assumes "100 \<le> n" and "n < 1000"
  shows "digitsOfNat n = [digitChar (n div 100), digitChar (n div 10 mod 10), digitChar (n mod 10)]"
proof -
  from assms have n1: "\<not> n < 10" and n2: "\<not> n div 10 < 10" and n3: "n div 10 div 10 < 10"
    by simp_all
  have a: "digitsOfNat n = digitsOfNat (n div 10) @ [digitChar (n mod 10)]"
    using n1 by (subst digitsOfNat.simps) simp
  have b: "digitsOfNat (n div 10) = digitsOfNat (n div 10 div 10) @ [digitChar (n div 10 mod 10)]"
    using n2 by (subst digitsOfNat.simps) (simp only: if_False)
  have c: "digitsOfNat (n div 10 div 10) = [digitChar (n div 10 div 10)]"
    using n3 by (subst digitsOfNat.simps) (simp only: if_True)
  have d: "n div 10 div 10 = n div 100"
    by (simp add: div_mult2_eq [symmetric])
  from c have c': "digitsOfNat (n div 100) = [digitChar (n div 100)]"
    by (simp only: d)
  show ?thesis by (simp add: a b c' d)
qed

text \<open>
  C1. For a draw \<open>r\<close> of \<^verbatim>\<open>Math.random()\<close>, the amount won lies in \<open>[400, 500]\<close>. Each of
  the 101 amounts \<open>400 + k\<close> is won on the draws of \<open>[k/101, (k+1)/101)\<close> up to the rounding of
  the product: on all of \<open>floorInner 101 k\<close> and only in \<open>floorOuter 101 k\<close>, intervals of
  length 1/101 less and plus \<open>2^-53\<close> (the draw is uniform when \<open>r\<close> is, up to that
  rounding). \<open>handleWin\<close> adds one to \<open>wins\<close> and the amount to \<open>balance\<close>, sets \<open>showVault\<close>
  when the new count is at least 3, puts the entry for the current game in front of
  \<open>history\<close> and keeps the first 5 entries, and sets \<open>lastResult\<close> to the amount in decimal
  between \<open>+$\<close> and \<open>!\<close>.
\<close>

theorem handleWin_spec:
  assumes "validDraw r"
  shows "400 \<le> winAmountOf r \<and> winAmountOf r \<le> 500 \<and>
    (\<forall>k. inInterval r (floorInner 101 k) \<longrightarrow> winAmountOf r = 400 + k) \<and>
    (\<forall>k. winAmountOf r = 400 + k \<longrightarrow> inInterval r (floorOuter 101 k)) \<and>
    (\<forall>k. intervalLength (floorInner 101 k) = 1 / 101 - 1 / 2 ^ 53 \<and>
         intervalLength (floorOuter 101 k) = 1 / 101 + 1 / 2 ^ 53) \<and>
    wins (handleWin r st) = wins st + 1 \<and>
    balance (handleWin r st) = balance st + winAmountOf r \<and>
    (wins (handleWin r st) \<ge> 3 \<longrightarrow> showVault (handleWin r st)) \<and>
    history (handleWin r st) = take 5 (\<lparr>game = currentGame st, result = Win\<rparr> # history st) \<and>
    length (history (handleWin r st)) \<le> 5 \<and>
    lastResult (handleWin r st) = Some (''+$'' @ numberToString (winAmountOf r) @ ''!'') \<and>
    numberToString (winAmountOf r) =
      [digitChar (nat (winAmountOf r) div 100), digitChar (nat (winAmountOf r) div 10 mod 10),
       digitChar (nat (winAmountOf r) mod 10)]"
proof -
  from assms have b: "400 \<le> winAmountOf r" "winAmountOf r \<le> 500"
    using winAmountOf_bounds by simp_all
  have ui: "\<forall>k. inInterval r (floorInner 101 k) \<longrightarrow> winAmountOf r = 400 + k"
    using assms winAmountOf_inner by blast
  have uo: "\<forall>k. winAmountOf r = 400 + k \<longrightarrow> inInterval r (floorOuter 101 k)"
    using assms winAmountOf_outer by blast
  have ul: "\<forall>k. intervalLength (floorInner 101 k) = 1 / 101 - 1 / 2 ^ 53 \<and>
         intervalLength (floorOuter 101 k) = 1 / 101 + 1 / 2 ^ 53"
    using floor_interval_lengths [of 101] by simp
  from b have "100 \<le> nat (winAmountOf r)" "nat (winAmountOf r) < 1000" by simp_all
  then have d: "digitsOfNat (nat (winAmountOf r)) =
      [digitChar (nat (winAmountOf r) div 100), digitChar (nat (winAmountOf r) div 10 mod 10),
       digitChar (nat (winAmountOf r) mod 10)]"
    by (rule digitsOfNat_three)
  from b have n: "numberToString (winAmountOf r) = digitsOfNat (nat (winAmountOf r))"
    by (simp add: numberToString_def)
  have rest: "wins (handleWin r st) = wins st + 1 \<and>
    balance (handleWin r st) = balance st + winAmountOf r \<and>
    (wins (handleWin r st) \<ge> 3 \<longrightarrow> showVault (handleWin r st)) \<and>
    history (handleWin r st) = take 5 (\<lparr>game = currentGame st, result = Win\<rparr> # history st) \<and>
    length (history (handleWin r st)) \<le> 5 \<and>
    lastResult (handleWin r st) = Some (''+$'' @ numberToString (winAmountOf r) @ ''!'')"
    by (simp add: handleWin_def Let_def)
  from d n have nd: "numberToString (winAmountOf r) =
      [digitChar (nat (winAmountOf r) div 100), digitChar (nat (winAmountOf r) div 10 mod 10),
       digitChar (nat (winAmountOf r) mod 10)]"
    by simp
  from b ui uo ul rest nd show ?thesis by blast
qed

theorem handleWin_spec_witness:
  "validDraw (1/2) \<and> winAmountOf (1/2) = 450 \<and>
   handleWin (1/2) initialState =
     \<lparr>wins = 1, balance = 450, showVault = False, currentGame = Slots, isSpinning = False,
      lastResult = Some ''+$450!'', history = [\<lparr>game = Slots, result = Win\<rparr>]\<rparr> \<and>
   validDraw (1070162287691999 / 4503599627370496) \<and>
   winAmountOf (1070162287691999 / 4503599627370496) = 424 \<and>
   inInterval (1070162287691999 / 4503599627370496) (floorOuter 101 24) \<and>
   (1070162287691999 / 4503599627370496 :: real) < 24 / 101"
proof -
  have v: "validDraw (1/2)" by (simp add: validDraw_def double_eval)
  have w: "winAmountOf (1/2) = 450" by (simp add: winAmountOf_def double_eval)
  have v2: "validDraw (1070162287691999 / 4503599627370496)"
    by (simp add: validDraw_def double_eval)
  have w2: "winAmountOf (1070162287691999 / 4503599627370496) = 400 + 24"
    by (simp add: winAmountOf_def double_eval)
  from handleWin_spec [OF v2, of initialState] w2
  have o: "inInterval (1070162287691999 / 4503599627370496) (floorOuter 101 24)"
    by blast
  have l: "(1070162287691999 / 4503599627370496 :: real) < 24 / 101" by simp
  from handleWin_spec [OF v, of initialState] w
  have h: "handleWin (1/2) initialState =
     \<lparr>wins = 1, balance = 450, showVault = False, currentGame = Slots, isSpinning = False,
      lastResult = Some ''+$450!'', history = [\<lparr>game = Slots, result = Win\<rparr>]\<rparr>"
    by (simp add: initialState_def handleWin_def Let_def digitChar_def)
  from v w h v2 w2 o l show ?thesis by simp
qed

text \<open>
  C10. \<open>handleWin\<close> leaves \<open>currentGame\<close> and \<open>isSpinning\<close> as they were: its result is
  the previous state with new values for \<open>wins\<close>, \<open>balance\<close>, \<open>showVault\<close>, \<open>lastResult\<close>
  and \<open>history\<close> only.
\<close>

theorem handleWin_frame:
  "currentGame (handleWin r st) = currentGame st \<and>
   isSpinning (handleWin r st) = isSpinning st \<and>
   (\<exists>w b v l h. handleWin r st =
      st\<lparr>wins := w, balance := b, showVault := v, lastResult := l, history := h\<rparr>)"
proof -
  have "handleWin r st =
      st\<lparr>wins := wins (handleWin r st), balance := balance (handleWin r st),
         showVault := showVault (handleWin r st), lastResult := lastResult (handleWin r st),
         history := history (handleWin r st)\<rparr>"
    by (simp add: handleWin_def Let_def)
  then have "\<exists>w b v l h. handleWin r st =
      st\<lparr>wins := w, balance := b, showVault := v, lastResult := l, history := h\<rparr>"
    by blast
  then show ?thesis
    by (simp add: handleWin_def Let_def)
qed

subsection \<open>Invariants of the reachable states\<close>

text \<open>The reachable states are the results of the runs from the initial state.\<close>

lemma run_snoc: "run (as @ [a]) st = step a (run as st)"
  by (induction as arbitrary: st) simp_all

lemma reachable_step: "reachable st \<Longrightarrow> validOp a \<Longrightarrow> reachable (step a st)"
  by (cases a) (auto intro: reachable.intros)

lemma reachable_run: "reachable st \<Longrightarrow> list_all validOp as \<Longrightarrow> reachable (run as st)"
  by (induction as arbitrary: st) (simp_all add: reachable_step)

lemma reachable_iff_run:
  "reachable st \<longleftrightarrow> (\<exists>as. list_all validOp as \<and> st = run as initialState)"
proof
  assume "reachable st"
  then show "\<exists>as. list_all validOp as \<and> st = run as initialState"
  proof (induction rule: reachable.induct)
    case init
    have "list_all validOp [] \<and> initialState = run [] initialState" by simp
    then show ?case by blast
  next
    case (onWin st r)
    then obtain as where "list_all validOp as" "st = run as initialState" by blast
    then have "list_all validOp (as @ [OnWin r]) \<and> handleWin r st = run (as @ [OnWin r]) initialState"
      using onWin.hyps(2) by (simp add: run_snoc)
    then show ?case by blast
  next
    case (selectGame st rendered g)
    then obtain as where "list_all validOp as" "st = run as initialState" by blast
    then have "list_all validOp (as @ [SelectGame rendered g]) \<and>
        setGame rendered g st = run (as @ [SelectGame rendered g]) initialState"
      by (simp add: run_snoc)
    then show ?case by blast
  next
    case (setSpinning st b)
    then obtain as where "list_all validOp as" "st = run as initialState" by blast
    then have "list_all validOp (as @ [SetSpinning b]) \<and> setIsSpinning b st = run (as @ [SetSpinning b]) initialState"
      by (simp add: run_snoc)
    then show ?case by blast
  qed
next
  assume "\<exists>as. list_all validOp as \<and> st = run as initialState"
  then show "reachable st"
    using reachable_run reachable.init by blast
qed

lemma step_vault_inv:
  "showVault st = (3 \<le> wins st) \<Longrightarrow> showVault (step a st) = (3 \<le> wins (step a st))"
  by (cases a) (simp_all add: handleWin_def Let_def setGame_def setIsSpinning_def)

lemma step_vault_stays:
  "showVault st = (3 \<le> wins st) \<Longrightarrow> showVault st \<Longrightarrow> showVault (step a st)"
  by (cases a) (simp_all add: handleWin_def Let_def setGame_def setIsSpinning_def)

lemma run_vault_stays:
  "showVault st = (3 \<le> wins st) \<Longrightarrow> showVault st \<Longrightarrow> showVault (run as st)"
proof (induction as arbitrary: st)
  case Nil
  then show ?case by simp
next
  case (Cons a as)
  have "showVault (step a st) = (3 \<le> wins (step a st))"
    using Cons.prems(1) by (rule step_vault_inv)
  moreover have "showVault (step a st)"
    using Cons.prems by (rule step_vault_stays)
  ultimately show ?case
    using Cons.IH by simp
qed

lemma reachable_vault_inv: "reachable st \<Longrightarrow> showVault st = (3 \<le> wins st)"
  by (induction rule: reachable.induct)
     (simp_all add: initialState_def handleWin_def Let_def setGame_def setIsSpinning_def)

text \<open>
  C2. In every reachable state \<open>showVault\<close> holds exactly when \<open>wins\<close> is at least 3: it
  is false at two wins and true after the win that follows, and once true it stays true
  under every operation and every sequence of operations.
\<close>

theorem showVault_iff_three_wins:
  assumes "reachable st"
  shows "(showVault st \<longleftrightarrow> wins st \<ge> 3) \<and>
    (wins st = 2 \<longrightarrow> \<not> showVault st \<and> showVault (handleWin r st)) \<and>
    (\<forall>a. showVault st \<longrightarrow> showVault (step a st)) \<and>
    (\<forall>as. showVault st \<longrightarrow> showVault (run as st))"
proof -
  from assms have inv: "showVault st = (3 \<le> wins st)"
    by (rule reachable_vault_inv)
  have two: "wins st = 2 \<longrightarrow> \<not> showVault st \<and> showVault (handleWin r st)"
    using inv by (simp add: handleWin_def Let_def)
  have one: "\<forall>a. showVault st \<longrightarrow> showVault (step a st)"
    using inv step_vault_stays by blast
  have many: "\<forall>as. showVault st \<longrightarrow> showVault (run as st)"
    using inv run_vault_stays by blast
  from inv two one many show ?thesis by blast
qed

theorem showVault_iff_three_wins_witness:
  "reachable (run [OnWin (1/2), OnWin (1/2)] initialState) \<and>
   wins (run [OnWin (1/2), OnWin (1/2)] initialState) = 2 \<and>
   \<not> showVault (run [OnWin (1/2), OnWin (1/2)] initialState) \<and>
   showVault (handleWin (1/2) (run [OnWin (1/2), OnWin (1/2)] initialState)) \<and>
   reachable (run [OnWin (1/2), OnWin (1/2), OnWin (1/2)] initialState) \<and>
   showVault (run [OnWin (1/2), OnWin (1/2), OnWin (1/2)] initialState) \<and>
   showVault (run [OnWin 0, SelectGame initialState Coin, SetSpinning True]
     (run [OnWin (1/2), OnWin (1/2), OnWin (1/2)] initialState))"
  (is "reachable ?s2 \<and> _ \<and> _ \<and> _ \<and> reachable ?s3 \<and> _ \<and> showVault (run ?as ?s3)")
proof -
  have v: "validDraw (1/2)" by (simp add: validDraw_def double_eval)
  have r2: "reachable ?s2"
    using v by (auto intro: reachable.intros)
  have r3: "reachable ?s3"
    using v by (auto intro: reachable.intros)
  have w2: "wins ?s2 = 2"
    by (simp add: handleWin_def Let_def initialState_def)
  have w3: "3 \<le> wins ?s3"
    by (simp add: handleWin_def Let_def initialState_def)
  from showVault_iff_three_wins [OF r2, of "1/2"] w2
  have a: "\<not> showVault ?s2 \<and> showVault (handleWin (1/2) ?s2)" by blast
  from showVault_iff_three_wins [OF r3, of "1/2"] w3
  have b: "showVault ?s3 \<and> showVault (run ?as ?s3)" by blast
  from r2 r3 w2 a b show ?thesis by blast
qed

lemma reachable_history_length: "reachable st \<Longrightarrow> int (length (history st)) = min (wins st) 5"
  by (induction rule: reachable.induct)
     (auto simp add: initialState_def handleWin_def Let_def setGame_def setIsSpinning_def)

text \<open>
  C9. In every reachable state the length of \<open>history\<close> is the minimum of \<open>wins\<close> and 5:
  a win makes it one longer up to the cap of 5, and \<open>setGame\<close> and \<open>setIsSpinning\<close> leave
  \<open>history\<close> as it is.
\<close>

theorem history_length_min_wins:
  assumes "reachable st"
  shows "int (length (history st)) = min (wins st) 5 \<and>
    length (history (handleWin r st)) = min 5 (length (history st) + 1) \<and>
    history (setGame rendered g st) = history st \<and>
    history (setIsSpinning b st) = history st"
  using reachable_history_length [OF assms]
  by (simp add: handleWin_def Let_def setGame_def setIsSpinning_def)

theorem history_length_min_wins_witness:
  "reachable (handleWin (1/2) initialState) \<and>
   int (length (history (handleWin (1/2) initialState))) = min (wins (handleWin (1/2) initialState)) 5 \<and>
   wins (handleWin (1/2) initialState) = 1"
proof -
  have v: "validDraw (1/2)" by (simp add: validDraw_def double_eval)
  have r1: "reachable (handleWin (1/2) initialState)"
    using v by (auto intro: reachable.intros)
  from history_length_min_wins [OF r1] r1 show ?thesis
    by (simp add: handleWin_def Let_def initialState_def)
qed

lemma take_append_take: "take n (xs @ take n ys) = take n (xs @ ys)"
  by (simp add: min_def)

lemma run_history:
  "history (run as st) = take 5 (rev (winLog as st) @ history st)" if "length (history st) \<le> 5"
  using that
proof (induction as st rule: winLog.induct)
  case (1 st)
  then show ?case by simp
next
  case (2 r as st)
  have "history (run (OnWin r # as) st) = take 5 (rev (winLog as (handleWin r st)) @ history (handleWin r st))"
    using "2.IH" by (simp add: handleWin_def Let_def)
  also have "history (handleWin r st) = take 5 (\<lparr>game = currentGame st, result = Win\<rparr> # history st)"
    by (simp add: handleWin_def Let_def)
  finally show ?case
    by (simp only: take_append_take winLog.simps step.simps rev.simps append_assoc append.simps)
next
  case (3 rendered g as st)
  then show ?case by (simp add: setGame_def)
next
  case (4 b as st)
  then show ?case by (simp add: setIsSpinning_def)
qed

lemma winLog_all_wins: "e \<in> set (winLog as st) \<Longrightarrow> result e = Win"
  by (induction as st rule: winLog.induct) auto

text \<open>
  C3. After any sequence of operations from the initial state, \<open>history\<close> has at most 5
  entries, each of them a win, and it is the wins of the run from the most recent back:
  the first 5 entries of the reversed log of wins.
\<close>

theorem history_recent_wins:
  "length (history (run as initialState)) \<le> 5 \<and>
   (\<forall>e \<in> set (history (run as initialState)). result e = Win) \<and>
   history (run as initialState) = take 5 (rev (winLog as initialState))"
proof -
  have h: "history (run as initialState) = take 5 (rev (winLog as initialState))"
    using run_history [of initialState as] by (simp add: initialState_def)
  have "\<forall>e \<in> set (take 5 (rev (winLog as initialState))). result e = Win"
    using winLog_all_wins by (metis in_set_takeD set_rev)
  with h show ?thesis by simp
qed

theorem history_recent_wins_witness:
  "history (run [OnWin (1/2), SelectGame initialState Coin, OnWin 0,
      SetSpinning True, SelectGame (initialState\<lparr>isSpinning := True\<rparr>) Dice,
      SetSpinning False, SelectGame initialState Dice, OnWin (1/4), OnWin 0, OnWin 0, OnWin 0] initialState) =
   [\<lparr>game = Dice, result = Win\<rparr>, \<lparr>game = Dice, result = Win\<rparr>, \<lparr>game = Dice, result = Win\<rparr>,
    \<lparr>game = Dice, result = Win\<rparr>, \<lparr>game = Coin, result = Win\<rparr>] \<and>
   map result (history (run [OnWin (1/2), SelectGame initialState Coin, OnWin 0,
      SetSpinning True, SelectGame (initialState\<lparr>isSpinning := True\<rparr>) Dice,
      SetSpinning False, SelectGame initialState Dice, OnWin (1/4), OnWin 0, OnWin 0, OnWin 0] initialState)) =
   [Win, Win, Win, Win, Win]"
  using history_recent_wins [of "[OnWin (1/2), SelectGame initialState Coin, OnWin 0,
      SetSpinning True, SelectGame (initialState\<lparr>isSpinning := True\<rparr>) Dice,
      SetSpinning False, SelectGame initialState Dice, OnWin (1/4), OnWin 0, OnWin 0, OnWin 0]"]
  by (simp add: initialState_def handleWin_def Let_def setGame_def setIsSpinning_def)

lemma run_balance: "balance (run as st) = balance st + sum_list (map winAmountOf (drawsOf as))"
  by (induction as arbitrary: st rule: drawsOf.induct)
     (simp_all add: handleWin_def Let_def setGame_def setIsSpinning_def)

lemma run_wins: "wins (run as st) = wins st + int (length (drawsOf as))"
  by (induction as arbitrary: st rule: drawsOf.induct)
     (simp_all add: handleWin_def Let_def setGame_def setIsSpinning_def)

lemma drawsOf_valid: "list_all validOp as \<Longrightarrow> r \<in> set (drawsOf as) \<Longrightarrow> validDraw r"
  by (induction as rule: drawsOf.induct) auto

lemma sum_list_bounds:
  fixes f :: "'a \<Rightarrow> int"
  assumes "\<forall>x \<in> set xs. lo \<le> f x \<and> f x \<le> hi"
  shows "lo * int (length xs) \<le> sum_list (map f xs) \<and> sum_list (map f xs) \<le> hi * int (length xs)"
  using assms by (induction xs) (auto simp add: algebra_simps)

lemma step_balance_mono: "validOp a \<Longrightarrow> balance st \<le> balance (step a st)"
  using winAmountOf_bounds
  by (cases a) (fastforce simp add: handleWin_def Let_def setGame_def setIsSpinning_def)+

text \<open>
  C6. After a run from the initial state in which every draw is a result of
  \<^verbatim>\<open>Math.random()\<close>, \<open>wins\<close> is the number \<open>N\<close> of wins of the run and \<open>balance\<close> is the
  sum of the \<open>N\<close> amounts won, each between 400 and 500, so \<open>balance\<close> lies between
  \<open>400 * N\<close> and \<open>500 * N\<close>; and no operation makes \<open>balance\<close> smaller.
\<close>

theorem balance_sum_of_draws:
  assumes "list_all validOp as"
  shows "wins (run as initialState) = int (length (drawsOf as)) \<and>
    balance (run as initialState) = sum_list (map winAmountOf (drawsOf as)) \<and>
    (\<forall>r \<in> set (drawsOf as). 400 \<le> winAmountOf r \<and> winAmountOf r \<le> 500) \<and>
    400 * int (length (drawsOf as)) \<le> balance (run as initialState) \<and>
    balance (run as initialState) \<le> 500 * int (length (drawsOf as)) \<and>
    (\<forall>a st. validOp a \<longrightarrow> balance st \<le> balance (step a st))"
proof -
  have w: "wins (run as initialState) = int (length (drawsOf as))"
    using run_wins [of as initialState] by (simp add: initialState_def)
  have b: "balance (run as initialState) = sum_list (map winAmountOf (drawsOf as))"
    using run_balance [of as initialState] by (simp add: initialState_def)
  have each: "\<forall>r \<in> set (drawsOf as). 400 \<le> winAmountOf r \<and> winAmountOf r \<le> 500"
    using assms drawsOf_valid winAmountOf_bounds by blast
  then have s: "400 * int (length (drawsOf as)) \<le> sum_list (map winAmountOf (drawsOf as)) \<and>
      sum_list (map winAmountOf (drawsOf as)) \<le> 500 * int (length (drawsOf as))"
    by (rule sum_list_bounds)
  have m: "\<forall>a st. validOp a \<longrightarrow> balance st \<le> balance (step a st)"
    using step_balance_mono by blast
  from w b each s m show ?thesis by simp
qed

theorem balance_sum_of_draws_witness:
  "list_all validOp [OnWin (13/64), SelectGame initialState Coin, OnWin (35/64), SetSpinning True, OnWin (51/64)] \<and>
   map winAmountOf (drawsOf [OnWin (13/64), SelectGame initialState Coin, OnWin (35/64), SetSpinning True, OnWin (51/64)])
     = [420, 455, 480] \<and>
   wins (run [OnWin (13/64), SelectGame initialState Coin, OnWin (35/64), SetSpinning True, OnWin (51/64)] initialState) = 3 \<and>
   balance (run [OnWin (13/64), SelectGame initialState Coin, OnWin (35/64), SetSpinning True, OnWin (51/64)] initialState) = 1355"
  (is "list_all validOp ?as \<and> _")
proof -
  have v: "list_all validOp ?as" by (simp add: validDraw_def double_eval)
  have d: "map winAmountOf (drawsOf ?as) = [420, 455, 480]"
    by (simp add: winAmountOf_def double_eval)
  from balance_sum_of_draws [OF v] v d show ?thesis
    by simp
qed

section \<open>Properties of the game modules\<close>

subsection \<open>The interval loops and the rounds\<close>

lemma rollInterval_runs:
  "count \<le> 15 \<Longrightarrow>
   rollInterval rnd count e =
     rollFinish rnd (e\<lparr>drawn := drawn e + (16 - count), ticks := ticks e + (16 - count),
                       clock := clock e + 80 * (16 - count)\<rparr>)"
proof (induction rnd count e rule: rollInterval.induct)
  case (1 rnd count e)
  show ?case
  proof (cases "count + 1 > 15")
    case True
    with "1.prems" have "count = 15" by simp
    then show ?thesis
      by (subst rollInterval.simps) (cases e, simp add: random_def timerFires_def)
  next
    case False
    then have c: "16 - count = Suc (16 - (count + 1))" by simp
    from False have "rollInterval rnd count e =
        rollInterval rnd (count + 1) (snd (random rnd (timerFires 80 e)))"
      by (subst rollInterval.simps) simp
    also have "\<dots> = rollFinish rnd
        ((snd (random rnd (timerFires 80 e)))\<lparr>
           drawn := drawn (snd (random rnd (timerFires 80 e))) + (16 - (count + 1)),
           ticks := ticks (snd (random rnd (timerFires 80 e))) + (16 - (count + 1)),
           clock := clock (snd (random rnd (timerFires 80 e))) + 80 * (16 - (count + 1))\<rparr>)"
      using False by (intro "1.IH") simp_all
    also have "\<dots> = rollFinish rnd (e\<lparr>drawn := drawn e + (16 - count), ticks := ticks e + (16 - count),
                       clock := clock e + 80 * (16 - count)\<rparr>)"
      by (cases e) (simp add: random_def timerFires_def c add.assoc)
    finally show ?thesis .
  qed
qed

lemma drawReels_env: "snd (drawReels rnd e) = e\<lparr>drawn := drawn e + 3\<rparr>"
  by (simp add: drawReels_def random_def)

lemma spinInterval_runs:
  "iterations \<le> 20 \<Longrightarrow>
   spinInterval rnd iterations e =
     spinFinish rnd (e\<lparr>drawn := drawn e + 3 * (21 - iterations), ticks := ticks e + (21 - iterations),
                       clock := clock e + 100 * (21 - iterations)\<rparr>)"
proof (induction rnd iterations e rule: spinInterval.induct)
  case (1 rnd iterations e)
  show ?case
  proof (cases "iterations + 1 > 20")
    case True
    with "1.prems" have "iterations = 20" by simp
    then show ?thesis
      by (subst spinInterval.simps) (cases e, simp add: drawReels_env timerFires_def)
  next
    case False
    then have c: "21 - iterations = Suc (21 - (iterations + 1))" by simp
    let ?e1 = "snd (drawReels rnd (timerFires 100 e))"
    from False have "spinInterval rnd iterations e = spinInterval rnd (iterations + 1) ?e1"
      by (subst spinInterval.simps) simp
    also have "\<dots> = spinFinish rnd
        (?e1\<lparr>drawn := drawn ?e1 + 3 * (21 - (iterations + 1)),
              ticks := ticks ?e1 + (21 - (iterations + 1)),
              clock := clock ?e1 + 100 * (21 - (iterations + 1))\<rparr>)"
      using False by (intro "1.IH") simp_all
    also have "\<dots> = spinFinish rnd (e\<lparr>drawn := drawn e + 3 * (21 - iterations),
        ticks := ticks e + (21 - iterations), clock := clock e + 100 * (21 - iterations)\<rparr>)"
      by (cases e) (simp add: drawReels_env timerFires_def c add.assoc)
    finally show ?thesis .
  qed
qed

lemma onWin_env:
  "ticks (onWin rnd e) = ticks e \<and> clock (onWin rnd e) = clock e \<and> drawn (onWin rnd e) = drawn e + 1 \<and>
   session (onWin rnd e) = handleWin (rnd (drawn e)) (session e)"
  by (simp add: onWin_def random_def)

lemma roll_round:
  "\<not> spinning \<Longrightarrow>
   roll rnd spinning dice e =
     (let final = rollDie (rnd (drawn e + 16));
          e2 = e\<lparr>session := setIsSpinning False (setIsSpinning True (session e)),
                 drawn := drawn e + 17, ticks := ticks e + 16, clock := clock e + 1280\<rparr>
      in if final > 3 then (final, Some Win, onWin rnd e2) else (final, Some Loss, e2))"
  by (cases e) (simp add: roll_def rollInterval_runs rollFinish_def random_def Let_def add.commute)

lemma spin_round:
  "\<not> spinning \<Longrightarrow>
   spin rnd spinning reels e =
     (let finalReels = [pickSymbol (rnd (drawn e + 63)), pickSymbol (rnd (drawn e + 64)),
                        pickSymbol (rnd (drawn e + 65))];
          c = rnd (drawn e + 66);
          winSym = pickSymbol (rnd (drawn e + 67));
          e2 = e\<lparr>session := setIsSpinning False (setIsSpinning True (session e)),
                 drawn := drawn e + 67, ticks := ticks e + 21, clock := clock e + 2100\<rparr>
      in if c > double04 then ([winSym, winSym, winSym], Some Win, onWin rnd (e2\<lparr>drawn := drawn e + 68\<rparr>))
         else if pickSymbol (rnd (drawn e + 63)) = pickSymbol (rnd (drawn e + 64)) \<and>
                 pickSymbol (rnd (drawn e + 64)) = pickSymbol (rnd (drawn e + 65))
           then (finalReels, Some Win, onWin rnd e2)
         else (finalReels, Some Loss, e2))"
  by (cases e)
     (simp add: spin_def spinInterval_runs spinFinish_def drawReels_def random_def Let_def add.commute)

lemma flip_round:
  "\<not> spinning \<Longrightarrow>
   flip rnd spinning userChoice side e =
     (let result = (if rnd (drawn e) > 5 / 10 then Heads else Tails);
          e2 = e\<lparr>session := setIsSpinning False (setIsSpinning True (session e)),
                 drawn := drawn e + 1, ticks := ticks e + 1, clock := clock e + 1000\<rparr>
      in if result = userChoice then (result, Some Win, onWin rnd e2) else (result, Some Loss, e2))"
  by (cases e) (simp add: flip_def flipFinish_def timerFires_def random_def Let_def)

lemma spinning_off: "setIsSpinning False (setIsSpinning True st) = st\<lparr>isSpinning := False\<rparr>"
  by (simp add: setIsSpinning_def)

subsection \<open>Dice\<close>

lemma rollDie_bounds: "validDraw r \<Longrightarrow> 1 \<le> rollDie r \<and> rollDie r \<le> 6"
  using floor_mul_bounds [of r 6] by (simp add: rollDie_def)

lemma rollDie_inner: "validDraw r \<Longrightarrow> inInterval r (floorInner 6 (k - 1)) \<Longrightarrow> rollDie r = k"
  using floor_mul_inner [of r 6 "k - 1"] by (simp add: rollDie_def)

lemma rollDie_outer: "validDraw r \<Longrightarrow> rollDie r = k \<Longrightarrow> inInterval r (floorOuter 6 (k - 1))"
  using floor_mul_outer [of r 6 "k - 1"] by (simp add: rollDie_def)

lemma rollDie_win:
  assumes "validDraw r"
  shows "rollDie r > 3 \<longleftrightarrow> inInterval r diceWinInterval"
proof
  assume "rollDie r > 3"
  then have k: "3 \<le> \<lfloor>roundDouble (r * 6)\<rfloor>" by (simp add: rollDie_def)
  from assms have r0: "0 \<le> r" and r1: "r < 1" by (simp_all add: validDraw_def)
  have "0 \<le> r * 6" "r * 6 < 2 ^ 53" using r0 r1 by simp_all
  then have "of_int \<lfloor>roundDouble (r * 6)\<rfloor> \<le> r * 6 * (1 + 1 / 2 ^ 53)"
    using floor_round_nec [of "r * 6" "\<lfloor>roundDouble (r * 6)\<rfloor>"] by simp
  moreover from k have "(3::real) \<le> of_int \<lfloor>roundDouble (r * 6)\<rfloor>" by linarith
  ultimately have t: "3 \<le> r * 6 * (1 + 1 / 2 ^ 53)" by linarith
  have "1 / 2 \<le> r"
  proof (rule ccontr)
    assume "\<not> 1 / 2 \<le> r"
    then have "r \<le> 1 / 2 - 1 / 2 ^ 54"
      using assms by (intro validDraw_below_half) simp_all
    with t show False by simp
  qed
  with r1 show "inInterval r diceWinInterval" by (simp add: diceWinInterval_def)
next
  assume "inInterval r diceWinInterval"
  then have h: "1 / 2 \<le> r" and r1: "r < 1" by (simp_all add: diceWinInterval_def)
  then have "of_int 3 \<le> r * 6" "r * 6 < 2 ^ 53" by simp_all
  then have "of_int 3 \<le> roundDouble (r * 6)" by (intro roundDouble_ge_int) simp_all
  then have "3 \<le> \<lfloor>roundDouble (r * 6)\<rfloor>" by (simp add: le_floor_iff)
  then show "rollDie r > 3" by (simp add: rollDie_def)
qed

text \<open>
  C8. A dice round started while the prop \<^verbatim>\<open>isSpinning\<close> is false runs 16 interval callbacks 80 ms apart and
  then, in the last of them, draws the final value \<^verbatim>\<open>Math.floor(r * 6) + 1\<close>, which lies between
  1 and 6; the value is \<open>k\<close> on the draws of \<open>[(k-1)/6, k/6)\<close> up to the rounding of the
  product (on all of \<open>floorInner 6 (k - 1)\<close> and only in \<open>floorOuter 6 (k - 1)\<close>). The round is
  won exactly when the final value is above 3, that is 4, 5 or 6, that is for a draw in
  \<open>[1/2, 1)\<close>, an interval of length 1/2. The round ends with \<open>isSpinning\<close> false; a win is
  reported by \<open>handleWin\<close> on the session with the next draw, a loss changes nothing else.
\<close>

theorem roll_spec:
  assumes "\<not> spinning" and "validDraw (rnd (drawn e + 16))"
  shows "\<exists>final res e'. roll rnd spinning dice e = (final, Some res, e') \<and>
      ticks e' = ticks e + 16 \<and> clock e' = clock e + 16 * 80 \<and>
      final = rollDie (rnd (drawn e + 16)) \<and> 1 \<le> final \<and> final \<le> 6 \<and>
      (\<forall>k. inInterval (rnd (drawn e + 16)) (floorInner 6 (k - 1)) \<longrightarrow> final = k) \<and>
      (\<forall>k. final = k \<longrightarrow> inInterval (rnd (drawn e + 16)) (floorOuter 6 (k - 1))) \<and>
      (\<forall>k. intervalLength (floorInner 6 k) = 1 / 6 - 1 / 2 ^ 53 \<and>
           intervalLength (floorOuter 6 k) = 1 / 6 + 1 / 2 ^ 53) \<and>
      (res = Win \<longleftrightarrow> final > 3) \<and>
      (res = Win \<longleftrightarrow> final = 4 \<or> final = 5 \<or> final = 6) \<and>
      (res = Win \<longleftrightarrow> inInterval (rnd (drawn e + 16)) diceWinInterval) \<and>
      intervalLength diceWinInterval = 1 / 2 \<and>
      (res = Win \<longrightarrow>
         session e' = handleWin (rnd (drawn e + 17)) ((session e)\<lparr>isSpinning := False\<rparr>) \<and>
         drawn e' = drawn e + 18) \<and>
      (res = Loss \<longrightarrow> session e' = (session e)\<lparr>isSpinning := False\<rparr> \<and> drawn e' = drawn e + 17)"
proof -
  let ?r = "rnd (drawn e + 16)"
  let ?final = "rollDie ?r"
  let ?res = "if ?final > 3 then Win else Loss"
  from assms(2) have b: "1 \<le> ?final \<and> ?final \<le> 6" by (rule rollDie_bounds)
  have ui: "\<forall>k. inInterval ?r (floorInner 6 (k - 1)) \<longrightarrow> ?final = k"
    using assms(2) rollDie_inner by blast
  have uo: "\<forall>k. ?final = k \<longrightarrow> inInterval ?r (floorOuter 6 (k - 1))"
    using assms(2) rollDie_outer by blast
  have l: "\<forall>k. intervalLength (floorInner 6 k) = 1 / 6 - 1 / 2 ^ 53 \<and>
           intervalLength (floorOuter 6 k) = 1 / 6 + 1 / 2 ^ 53"
    using floor_interval_lengths [of 6] by simp
  have w: "?final > 3 \<longleftrightarrow> inInterval ?r diceWinInterval"
    using assms(2) by (rule rollDie_win)
  have w3: "?final > 3 \<longleftrightarrow> ?final = 4 \<or> ?final = 5 \<or> ?final = 6"
    using b by auto
  have h: "intervalLength diceWinInterval = 1 / 2"
    by (simp add: diceWinInterval_def)
  have "\<exists>e'. roll rnd spinning dice e = (?final, Some ?res, e') \<and>
      ticks e' = ticks e + 16 \<and> clock e' = clock e + 16 * 80 \<and>
      (?res = Win \<longrightarrow>
         session e' = handleWin (rnd (drawn e + 17)) ((session e)\<lparr>isSpinning := False\<rparr>) \<and>
         drawn e' = drawn e + 18) \<and>
      (?res = Loss \<longrightarrow> session e' = (session e)\<lparr>isSpinning := False\<rparr> \<and> drawn e' = drawn e + 17)"
    using assms(1) by (simp add: roll_round Let_def onWin_env spinning_off)
  then obtain e' where r: "roll rnd spinning dice e = (?final, Some ?res, e')"
      and t: "ticks e' = ticks e + 16" and c: "clock e' = clock e + 16 * 80"
      and sw: "?res = Win \<longrightarrow>
         session e' = handleWin (rnd (drawn e + 17)) ((session e)\<lparr>isSpinning := False\<rparr>) \<and>
         drawn e' = drawn e + 18"
      and sl: "?res = Loss \<longrightarrow> session e' = (session e)\<lparr>isSpinning := False\<rparr> \<and> drawn e' = drawn e + 17"
    by blast
  have wr: "?res = Win \<longleftrightarrow> ?final > 3" by simp
  have "roll rnd spinning dice e = (?final, Some ?res, e') \<and>
      ticks e' = ticks e + 16 \<and> clock e' = clock e + 16 * 80 \<and>
      ?final = rollDie ?r \<and> 1 \<le> ?final \<and> ?final \<le> 6 \<and>
      (\<forall>k. inInterval ?r (floorInner 6 (k - 1)) \<longrightarrow> ?final = k) \<and>
      (\<forall>k. ?final = k \<longrightarrow> inInterval ?r (floorOuter 6 (k - 1))) \<and>
      (\<forall>k. intervalLength (floorInner 6 k) = 1 / 6 - 1 / 2 ^ 53 \<and>
           intervalLength (floorOuter 6 k) = 1 / 6 + 1 / 2 ^ 53) \<and>
      (?res = Win \<longleftrightarrow> ?final > 3) \<and>
      (?res = Win \<longleftrightarrow> ?final = 4 \<or> ?final = 5 \<or> ?final = 6) \<and>
      (?res = Win \<longleftrightarrow> inInterval ?r diceWinInterval) \<and>
      intervalLength diceWinInterval = 1 / 2 \<and>
      (?res = Win \<longrightarrow>
         session e' = handleWin (rnd (drawn e + 17)) ((session e)\<lparr>isSpinning := False\<rparr>) \<and>
         drawn e' = drawn e + 18) \<and>
      (?res = Loss \<longrightarrow> session e' = (session e)\<lparr>isSpinning := False\<rparr> \<and> drawn e' = drawn e + 17)"
    using r t c b ui uo l h wr w w3 sw sl by blast
  then show ?thesis by blast
qed

theorem roll_spec_witness:
  "validDraw (winTape (drawn startEnv + 16)) \<and>
   fst (roll winTape False 1 startEnv) = 5 \<and> fst (snd (roll winTape False 1 startEnv)) = Some Win \<and>
   ticks (snd (snd (roll winTape False 1 startEnv))) = 16 \<and>
   clock (snd (snd (roll winTape False 1 startEnv))) = 1280 \<and>
   session (snd (snd (roll winTape False 1 startEnv))) = handleWin (3 / 4) initialState \<and>
   wins (session (snd (snd (roll winTape False 1 startEnv)))) = 1 \<and>
   balance (session (snd (snd (roll winTape False 1 startEnv)))) = 475 \<and>
   validDraw (lossTape (drawn startEnv + 16)) \<and>
   fst (roll lossTape False 1 startEnv) = 1 \<and> fst (snd (roll lossTape False 1 startEnv)) = Some Loss \<and>
   session (snd (snd (roll lossTape False 1 startEnv))) = initialState \<and>
   drawn (snd (snd (roll lossTape False 1 startEnv))) = 17"
proof -
  have n: "\<not> False" by simp
  have i: "(session startEnv)\<lparr>isSpinning := False\<rparr> = initialState"
    by (simp add: startEnv_def initialState_def)
  have v: "validDraw (winTape (drawn startEnv + 16))"
    by (simp add: winTape_def validDraw_def double_eval)
  have d: "rollDie (winTape (drawn startEnv + 16)) = 5"
    by (simp add: winTape_def rollDie_def double_eval)
  have a: "winTape (drawn startEnv + 17) = 3 / 4" by (simp add: winTape_def)
  from roll_spec [where e = startEnv and rnd = winTape and spinning = False and dice = 1, OF n v] obtain final res e' where
    r: "roll winTape False 1 startEnv = (final, Some res, e')" and
    t: "ticks e' = ticks startEnv + 16" and c: "clock e' = clock startEnv + 16 * 80" and
    f: "final = rollDie (winTape (drawn startEnv + 16))" and w: "res = Win \<longleftrightarrow> final > 3" and
    s: "res = Win \<longrightarrow> session e' =
      handleWin (winTape (drawn startEnv + 17)) ((session startEnv)\<lparr>isSpinning := False\<rparr>) \<and>
      drawn e' = drawn startEnv + 18"
    by blast
  from f d w have fw: "final = 5" "res = Win" by simp_all
  with s have se: "session e' = handleWin (3 / 4) initialState" by (simp only: a i)
  have am: "winAmountOf (3 / 4) = 475" by (simp add: winAmountOf_def double_eval)
  from se am have wb: "wins (session e') = 1" "balance (session e') = 475"
    by (simp_all add: handleWin_def Let_def initialState_def)
  have v2: "validDraw (lossTape (drawn startEnv + 16))"
    by (simp add: lossTape_def validDraw_def double_eval startEnv_def)
  have d2: "rollDie (lossTape (drawn startEnv + 16)) = 1"
    by (simp add: lossTape_def rollDie_def double_eval startEnv_def)
  from roll_spec [where e = startEnv and rnd = lossTape and spinning = False and dice = 1, OF n v2] obtain final2 res2 e2 where
    r2: "roll lossTape False 1 startEnv = (final2, Some res2, e2)" and
    f2: "final2 = rollDie (lossTape (drawn startEnv + 16))" and w2: "res2 = Win \<longleftrightarrow> final2 > 3" and
    s2: "res2 = Loss \<longrightarrow> session e2 = (session startEnv)\<lparr>isSpinning := False\<rparr> \<and>
      drawn e2 = drawn startEnv + 17"
    by blast
  from f2 d2 w2 have "final2 = 1" "res2 \<noteq> Win" by simp_all
  then have fl: "final2 = 1" "res2 = Loss" by (cases res2, simp_all)+
  with s2 have sl: "session e2 = initialState" "drawn e2 = 17"
    by (simp_all add: startEnv_def initialState_def)
  from r fw t c se wb r2 fl sl n v v2 show ?thesis by (simp add: startEnv_def)
qed

subsection \<open>Losing rounds\<close>

lemma spin_loss:
  assumes "spin rnd spinning reels e = (reels', Some Loss, e')"
  shows "session e' = (session e)\<lparr>isSpinning := False\<rparr>"
proof (cases spinning)
  case True
  with assms show ?thesis by (simp add: spin_def)
next
  case False
  with assms show ?thesis
    by (auto simp add: spin_round Let_def spinning_off split: if_splits)
qed

lemma flip_loss:
  assumes "flip rnd spinning userChoice side e = (side', Some Loss, e')"
  shows "session e' = (session e)\<lparr>isSpinning := False\<rparr>"
proof (cases spinning)
  case True
  with assms show ?thesis by (simp add: flip_def)
next
  case False
  with assms show ?thesis
    by (auto simp add: flip_round Let_def spinning_off split: if_splits)
qed

lemma roll_loss:
  assumes "roll rnd spinning dice e = (dice', Some Loss, e')"
  shows "session e' = (session e)\<lparr>isSpinning := False\<rparr>"
proof (cases spinning)
  case True
  with assms show ?thesis by (simp add: roll_def)
next
  case False
  with assms show ?thesis
    by (auto simp add: roll_round Let_def spinning_off split: if_splits)
qed

text \<open>
  C5. When a round of the slot machine, the coin flip or the dice roll ends in a loss,
  the session afterwards is the session before with \<open>isSpinning\<close> false: \<open>wins\<close>,
  \<open>balance\<close>, \<open>showVault\<close>, \<open>history\<close>, \<open>lastResult\<close> and \<open>currentGame\<close> are unchanged.
\<close>

theorem loss_frame:
  assumes "spin rnd spinning reels e = (reels', Some Loss, e') \<or>
           flip rnd spinning userChoice side e = (side', Some Loss, e') \<or>
           roll rnd spinning dice e = (dice', Some Loss, e')"
  shows "session e' = (session e)\<lparr>isSpinning := False\<rparr> \<and>
    wins (session e') = wins (session e) \<and> balance (session e') = balance (session e) \<and>
    showVault (session e') = showVault (session e) \<and> history (session e') = history (session e) \<and>
    lastResult (session e') = lastResult (session e) \<and>
    currentGame (session e') = currentGame (session e) \<and> \<not> isSpinning (session e')"
proof -
  from assms have "session e' = (session e)\<lparr>isSpinning := False\<rparr>"
    using spin_loss flip_loss roll_loss by blast
  then show ?thesis by simp
qed

theorem loss_frame_witness:
  "fst (snd (spin lossTape False [] startEnv)) = Some Loss \<and>
   session (snd (snd (spin lossTape False [] startEnv))) = initialState \<and>
   fst (snd (flip lossTape False Heads Heads startEnv)) = Some Loss \<and>
   session (snd (snd (flip lossTape False Heads Heads startEnv))) = initialState \<and>
   fst (snd (roll lossTape False 1 startEnv)) = Some Loss \<and>
   session (snd (snd (roll lossTape False 1 startEnv))) = initialState"
proof -
  have i: "(session startEnv)\<lparr>isSpinning := False\<rparr> = initialState"
    by (simp add: startEnv_def initialState_def)
  have n: "\<not> False" by simp
  have "\<exists>v e1. spin lossTape False [] startEnv = (v, Some Loss, e1)"
    using n by (simp add: spin_round Let_def lossTape_def pickSymbol_def symbols_def startEnv_def double04_def double_eval)
  then obtain v1 e1 where s: "spin lossTape False [] startEnv = (v1, Some Loss, e1)" by blast
  have "\<exists>v e2. flip lossTape False Heads Heads startEnv = (v, Some Loss, e2)"
    using n by (simp add: flip_round Let_def lossTape_def startEnv_def)
  then obtain v2 e2 where f: "flip lossTape False Heads Heads startEnv = (v2, Some Loss, e2)" by blast
  have "\<exists>v e3. roll lossTape False 1 startEnv = (v, Some Loss, e3)"
    using n by (simp add: roll_round Let_def lossTape_def rollDie_def startEnv_def double_eval)
  then obtain v3 e3 where r: "roll lossTape False 1 startEnv = (v3, Some Loss, e3)" by blast
  from loss_frame [where rnd = lossTape and spinning = False and e = startEnv and e' = e1, OF disjI1, OF s]
  have a: "session e1 = initialState" by (simp only: i)
  from loss_frame [where rnd = lossTape and spinning = False and e = startEnv and e' = e2, OF disjI2, OF disjI1, OF f]
  have b: "session e2 = initialState" by (simp only: i)
  from loss_frame [where rnd = lossTape and spinning = False and e = startEnv and e' = e3, OF disjI2, OF disjI2, OF r]
  have c: "session e3 = initialState" by (simp only: i)
  from s f r a b c show ?thesis by simp
qed

subsection \<open>Slots\<close>

lemma double04_value: "double04 = 3602879701896397 / 9007199254740992"
  by (simp add: double04_def double_eval)

lemma symbols_nth_eq: "i < 6 \<Longrightarrow> j < 6 \<Longrightarrow> symbols ! i = symbols ! j \<longleftrightarrow> i = j"
proof -
  have "distinct symbols" by (simp add: symbols_def)
  moreover have "length symbols = 6" by (simp add: symbols_def)
  ultimately show "i < 6 \<Longrightarrow> j < 6 \<Longrightarrow> symbols ! i = symbols ! j \<longleftrightarrow> i = j"
    by (simp add: nth_eq_iff_index_eq)
qed

lemma floor6_bounds:
  "validDraw r \<Longrightarrow> 0 \<le> \<lfloor>roundDouble (r * 6)\<rfloor> \<and> \<lfloor>roundDouble (r * 6)\<rfloor> < 6"
  using floor_mul_bounds [of r 6] by simp

lemma pickSymbol_index:
  assumes "validDraw r"
  shows "\<exists>j < 6. \<lfloor>roundDouble (r * 6)\<rfloor> = int j \<and> pickSymbol r = Some (symbols ! j)"
proof -
  let ?i = "\<lfloor>roundDouble (r * 6)\<rfloor>"
  from floor6_bounds [OF assms] have b: "0 \<le> ?i" "?i < 6" by blast+
  have p: "pickSymbol r = Some (symbols ! nat ?i)"
    using floor6_bounds [OF assms] by (simp add: pickSymbol_def symbols_def)
  from b have n: "nat ?i < 6" by linarith
  from b(1) have "int (nat ?i) = ?i" by (rule nat_0_le)
  then have "?i = int (nat ?i)" by (rule sym)
  with p n show ?thesis by blast
qed

lemma pickSymbol_iff:
  assumes "validDraw r" and "k < 6"
  shows "pickSymbol r = Some (symbols ! k) \<longleftrightarrow> \<lfloor>roundDouble (r * 6)\<rfloor> = int k"
proof -
  from pickSymbol_index [OF assms(1)] obtain j where j: "j < 6"
      "\<lfloor>roundDouble (r * 6)\<rfloor> = int j" "pickSymbol r = Some (symbols ! j)"
    by blast
  then have "pickSymbol r = Some (symbols ! k) \<longleftrightarrow> j = k"
    using assms(2) by (simp add: symbols_nth_eq)
  with j(2) show ?thesis by simp
qed

lemma pickSymbol_inner:
  "validDraw r \<Longrightarrow> k < 6 \<Longrightarrow> inInterval r (floorInner 6 (int k)) \<Longrightarrow> pickSymbol r = Some (symbols ! k)"
  using floor_mul_inner [of r 6 "int k"] by (simp add: pickSymbol_iff)

lemma pickSymbol_outer:
  "validDraw r \<Longrightarrow> k < 6 \<Longrightarrow> pickSymbol r = Some (symbols ! k) \<Longrightarrow> inInterval r (floorOuter 6 (int k))"
  using floor_mul_outer [of r 6 "int k"] by (simp add: pickSymbol_iff)

lemma floorInner_exact: "inInterval r (floorInner 6 (int k)) \<Longrightarrow> \<lfloor>r * 6\<rfloor> = int k"
proof -
  assume "inInterval r (floorInner 6 (int k))"
  then have lo: "real k / 6 \<le> r" and hi: "r < (real k + 1) / 6 - 1 / 2 ^ 53"
    by (simp_all add: floorInner_def)
  have "(0::real) < 1 / 2 ^ 53" by simp
  with hi have "r < (real k + 1) / 6" by linarith
  then have "r * 6 < real k + 1" by (simp add: field_simps)
  moreover from lo have "real k \<le> r * 6" by (simp add: field_simps)
  ultimately show ?thesis by (simp add: floor_eq_iff)
qed

lemma count_index:
  "length (filter (\<lambda>k. int k = a) [0..<n]) = (if 0 \<le> a \<and> a < int n then 1 else 0)"
  by (induction n) auto

lemma filter_unique:
  assumes "\<And>k. P k \<Longrightarrow> int k = a"
  shows "length (filter P [0..<n]) \<le> 1"
proof -
  have "filter P [0..<n] = filter P (filter (\<lambda>k. int k = a) [0..<n])"
    using assms by (auto intro: filter_cong)
  then have "length (filter P [0..<n]) \<le> length (filter (\<lambda>k. int k = a) [0..<n])"
    by (metis length_filter_le)
  then show ?thesis by (simp add: count_index split: if_splits)
qed

lemma in_forced: "validDraw f1 \<Longrightarrow> validDraw f2 \<Longrightarrow> validDraw f3 \<Longrightarrow> validDraw c \<Longrightarrow>
    inBox [f1, f2, f3, c] slotForcedBox \<longleftrightarrow> c > double04"
  by (simp add: inBox_def slotForcedBox_def unitInterval_def validDraw_def)

lemma in_matchInner:
  "inBox [f1, f2, f3, c] (slotMatchInner k) \<longleftrightarrow>
     inInterval f1 (floorInner 6 (int k)) \<and> inInterval f2 (floorInner 6 (int k)) \<and>
     inInterval f3 (floorInner 6 (int k)) \<and> 0 \<le> c \<and> c \<le> double04"
  by (simp add: inBox_def slotMatchInner_def)

lemma in_matchOuter:
  "inBox [f1, f2, f3, c] (slotMatchOuter k) \<longleftrightarrow>
     inInterval f1 (floorOuter 6 (int k)) \<and> inInterval f2 (floorOuter 6 (int k)) \<and>
     inInterval f3 (floorOuter 6 (int k)) \<and> 0 \<le> c \<and> c \<le> double04"
  by (simp add: inBox_def slotMatchOuter_def)

lemma slot_inner_wins:
  assumes "validDraw f1" "validDraw f2" "validDraw f3" "validDraw c"
    and "list_ex (inBox [f1, f2, f3, c]) slotInnerBoxes"
  shows "c > double04 \<or> (pickSymbol f1 = pickSymbol f2 \<and> pickSymbol f2 = pickSymbol f3)"
proof -
  from assms(5) consider "inBox [f1, f2, f3, c] slotForcedBox"
    | k where "k < 6" "inBox [f1, f2, f3, c] (slotMatchInner k)"
    by (auto simp add: slotInnerBoxes_def list_ex_iff)
  then show ?thesis
  proof cases
    case 1
    then show ?thesis using assms(1-4) by (simp add: in_forced)
  next
    case 2
    then have "pickSymbol f1 = Some (symbols ! k)" "pickSymbol f2 = Some (symbols ! k)"
        "pickSymbol f3 = Some (symbols ! k)"
      using assms(1-3) by (simp_all add: in_matchInner pickSymbol_inner)
    then show ?thesis by simp
  qed
qed

lemma slot_wins_outer:
  assumes "validDraw f1" "validDraw f2" "validDraw f3" "validDraw c"
    and "c > double04 \<or> (pickSymbol f1 = pickSymbol f2 \<and> pickSymbol f2 = pickSymbol f3)"
  shows "list_ex (inBox [f1, f2, f3, c]) slotOuterBoxes"
proof (cases "c > double04")
  case True
  then have "inBox [f1, f2, f3, c] slotForcedBox" using assms(1-4) by (simp add: in_forced)
  then show ?thesis by (simp add: slotOuterBoxes_def)
next
  case False
  with assms(5) have m: "pickSymbol f1 = pickSymbol f2" "pickSymbol f2 = pickSymbol f3" by simp_all
  from pickSymbol_index [OF assms(1)] obtain k where k: "k < 6" "pickSymbol f1 = Some (symbols ! k)"
    by blast
  with m have "pickSymbol f2 = Some (symbols ! k)" "pickSymbol f3 = Some (symbols ! k)" by simp_all
  with k have "inInterval f1 (floorOuter 6 (int k))" "inInterval f2 (floorOuter 6 (int k))"
      "inInterval f3 (floorOuter 6 (int k))"
    using assms(1-3) by (simp_all add: pickSymbol_outer)
  moreover from assms(4) False have "0 \<le> c" "c \<le> double04" by (simp_all add: validDraw_def)
  ultimately have "inBox [f1, f2, f3, c] (slotMatchOuter k)" by (simp add: in_matchOuter)
  with k(1) have "\<exists>b \<in> set (map slotMatchOuter [0..<6]). inBox [f1, f2, f3, c] b" by auto
  then show ?thesis by (simp add: slotOuterBoxes_def list_ex_iff)
qed

lemma slot_inner_disjoint:
  assumes "validDraw f1" "validDraw f2" "validDraw f3" "validDraw c"
  shows "length (filter (inBox [f1, f2, f3, c]) slotInnerBoxes) \<le> 1"
proof (cases "c > double04")
  case True
  then have "filter (inBox [f1, f2, f3, c]) (map slotMatchInner [0..<6]) = []"
    by (simp add: filter_empty_conv in_matchInner)
  then show ?thesis by (simp add: slotInnerBoxes_def)
next
  case False
  then have f: "\<not> inBox [f1, f2, f3, c] slotForcedBox" using assms by (simp add: in_forced)
  have "length (filter (\<lambda>k. inBox [f1, f2, f3, c] (slotMatchInner k)) [0..<6]) \<le> 1"
    by (rule filter_unique [where a = "\<lfloor>f1 * 6\<rfloor>"])
      (auto simp add: in_matchInner dest: floorInner_exact)
  then have "length (filter (inBox [f1, f2, f3, c]) (map slotMatchInner [0..<6])) \<le> 1"
    by (simp add: filter_map comp_def)
  with f show ?thesis by (simp add: slotInnerBoxes_def)
qed

lemma slot_volume_bounds:
  "11 / 18 - 1 / 2 ^ 50 \<le> slotWinLower \<and> slotWinLower \<le> slotWinUpper \<and>
   slotWinUpper \<le> 11 / 18 + 1 / 2 ^ 50"
  by (simp add: slotWinLower_def slotWinUpper_def slotInnerBoxes_def slotOuterBoxes_def boxVolume_def
      slotForcedBox_def slotMatchInner_def slotMatchOuter_def unitInterval_def floorInner_def
      floorOuter_def double04_value upt_rec)

text \<open>
  C7 (amended). A slot round started while the prop \<^verbatim>\<open>isSpinning\<close> is false runs 21 interval callbacks. The last
  one draws the three final symbols \<open>f1\<close>, \<open>f2\<close>, \<open>f3\<close> and a number \<open>c\<close>. If \<open>c\<close> exceeds \<^verbatim>\<open>0.4\<close>
  (the double just above 4/10, so an interval of length 0.6 less at most \<open>2^-54\<close>) the reels
  show one freshly drawn symbol three times and the round is won; otherwise the reels show
  the three final symbols and the round is won exactly when they are equal. A win is
  reported by \<open>handleWin\<close> on the session with the next draw, and the round ends with
  \<open>isSpinning\<close> false either way. Each symbol is shown on the draws of an interval of length
  1/6 up to the rounding of the product. Draws in one of the boxes of \<open>slotInnerBoxes\<close>, no
  two of which share a point, win, and winning draws lie in one of \<open>slotOuterBoxes\<close>; the
  volumes of both add up to 11/18 within \<open>2^-50\<close>, which is 61.1 per cent to one decimal.
\<close>

theorem slot_outcome:
  fixes rnd :: tape and e :: Env
  defines "f1 \<equiv> rnd (drawn e + 63)" and "f2 \<equiv> rnd (drawn e + 64)" and "f3 \<equiv> rnd (drawn e + 65)"
    and "c \<equiv> rnd (drawn e + 66)" and "w \<equiv> rnd (drawn e + 67)"
  assumes "\<not> spinning"
    and "validDraw f1" and "validDraw f2" and "validDraw f3" and "validDraw c"
  shows "\<exists>reels' res e'. spin rnd spinning reels e = (reels', Some res, e') \<and>
      ticks e' = ticks e + 21 \<and> clock e' = clock e + 21 * 100 \<and>
      (c > double04 \<longrightarrow> reels' = [pickSymbol w, pickSymbol w, pickSymbol w] \<and> res = Win \<and>
         session e' = handleWin (rnd (drawn e + 68)) ((session e)\<lparr>isSpinning := False\<rparr>) \<and>
         drawn e' = drawn e + 69) \<and>
      (\<not> c > double04 \<longrightarrow> reels' = [pickSymbol f1, pickSymbol f2, pickSymbol f3] \<and>
         (res = Win \<longleftrightarrow> pickSymbol f1 = pickSymbol f2 \<and> pickSymbol f2 = pickSymbol f3) \<and>
         (res = Win \<longrightarrow>
            session e' = handleWin (rnd (drawn e + 67)) ((session e)\<lparr>isSpinning := False\<rparr>) \<and>
            drawn e' = drawn e + 68) \<and>
         (res = Loss \<longrightarrow>
            session e' = (session e)\<lparr>isSpinning := False\<rparr> \<and> drawn e' = drawn e + 67)) \<and>
      4 / 10 \<le> double04 \<and> double04 \<le> 4 / 10 + 1 / 2 ^ 54 \<and>
      (c > double04 \<longleftrightarrow> inInterval c (Interval False double04 1 False)) \<and>
      intervalLength (Interval False double04 1 False) = 1 - double04 \<and>
      (\<forall>k < 6. \<forall>r. validDraw r \<longrightarrow>
         (inInterval r (floorInner 6 (int k)) \<longrightarrow> pickSymbol r = Some (symbols ! k)) \<and>
         (pickSymbol r = Some (symbols ! k) \<longrightarrow> inInterval r (floorOuter 6 (int k)))) \<and>
      (\<forall>k. intervalLength (floorInner 6 k) = 1 / 6 - 1 / 2 ^ 53 \<and>
           intervalLength (floorOuter 6 k) = 1 / 6 + 1 / 2 ^ 53) \<and>
      (list_ex (inBox [f1, f2, f3, c]) slotInnerBoxes \<longrightarrow> res = Win) \<and>
      (res = Win \<longrightarrow> list_ex (inBox [f1, f2, f3, c]) slotOuterBoxes) \<and>
      length (filter (inBox [f1, f2, f3, c]) slotInnerBoxes) \<le> 1 \<and>
      11 / 18 - 1 / 2 ^ 50 \<le> slotWinLower \<and> slotWinLower \<le> slotWinUpper \<and>
      slotWinUpper \<le> 11 / 18 + 1 / 2 ^ 50 \<and>
      \<bar>slotWinLower - 611 / 1000\<bar> \<le> 1 / 2000 \<and> \<bar>slotWinUpper - 611 / 1000\<bar> \<le> 1 / 2000"
proof -
  let ?match = "pickSymbol f1 = pickSymbol f2 \<and> pickSymbol f2 = pickSymbol f3"
  let ?won = "c > double04 \<or> ?match"
  let ?res = "if ?won then Win else Loss"
  let ?reels = "if c > double04 then [pickSymbol w, pickSymbol w, pickSymbol w]
     else [pickSymbol f1, pickSymbol f2, pickSymbol f3]"
  let ?off = "(session e)\<lparr>isSpinning := False\<rparr>"
  have "\<exists>e'. spin rnd spinning reels e = (?reels, Some ?res, e') \<and>
      ticks e' = ticks e + 21 \<and> clock e' = clock e + 21 * 100 \<and>
      (c > double04 \<longrightarrow> session e' = handleWin (rnd (drawn e + 68)) ?off \<and> drawn e' = drawn e + 69) \<and>
      (\<not> c > double04 \<longrightarrow>
         (?match \<longrightarrow> session e' = handleWin (rnd (drawn e + 67)) ?off \<and> drawn e' = drawn e + 68) \<and>
         (\<not> ?match \<longrightarrow> session e' = ?off \<and> drawn e' = drawn e + 67))"
    using assms(6)
    by (simp add: spin_round Let_def onWin_env spinning_off f1_def f2_def f3_def c_def w_def)
  then obtain e' where r: "spin rnd spinning reels e = (?reels, Some ?res, e')"
      and t: "ticks e' = ticks e + 21" and k: "clock e' = clock e + 21 * 100"
      and sf: "c > double04 \<longrightarrow> session e' = handleWin (rnd (drawn e + 68)) ?off \<and> drawn e' = drawn e + 69"
      and su: "\<not> c > double04 \<longrightarrow>
         (?match \<longrightarrow> session e' = handleWin (rnd (drawn e + 67)) ?off \<and> drawn e' = drawn e + 68) \<and>
         (\<not> ?match \<longrightarrow> session e' = ?off \<and> drawn e' = drawn e + 67)"
    by blast
  have forced: "c > double04 \<longrightarrow> ?reels = [pickSymbol w, pickSymbol w, pickSymbol w] \<and> ?res = Win \<and>
      session e' = handleWin (rnd (drawn e + 68)) ?off \<and> drawn e' = drawn e + 69"
    using sf by simp
  have other: "\<not> c > double04 \<longrightarrow> ?reels = [pickSymbol f1, pickSymbol f2, pickSymbol f3] \<and>
      (?res = Win \<longleftrightarrow> ?match) \<and>
      (?res = Win \<longrightarrow> session e' = handleWin (rnd (drawn e + 67)) ?off \<and> drawn e' = drawn e + 68) \<and>
      (?res = Loss \<longrightarrow> session e' = ?off \<and> drawn e' = drawn e + 67)"
    using su by simp
  have d: "4 / 10 \<le> double04 \<and> double04 \<le> 4 / 10 + 1 / 2 ^ 54"
    by (simp add: double04_value)
  have ci: "c > double04 \<longleftrightarrow> inInterval c (Interval False double04 1 False)"
    using assms(10) by (simp add: validDraw_def)
  have cl: "intervalLength (Interval False double04 1 False) = 1 - double04"
    by simp
  have u: "\<forall>k < 6. \<forall>r. validDraw r \<longrightarrow>
         (inInterval r (floorInner 6 (int k)) \<longrightarrow> pickSymbol r = Some (symbols ! k)) \<and>
         (pickSymbol r = Some (symbols ! k) \<longrightarrow> inInterval r (floorOuter 6 (int k)))"
    using pickSymbol_inner pickSymbol_outer by blast
  have l: "\<forall>k. intervalLength (floorInner 6 k) = 1 / 6 - 1 / 2 ^ 53 \<and>
           intervalLength (floorOuter 6 k) = 1 / 6 + 1 / 2 ^ 53"
    using floor_interval_lengths [of 6] by simp
  have wr: "?res = Win \<longleftrightarrow> ?won" by simp
  have bi: "list_ex (inBox [f1, f2, f3, c]) slotInnerBoxes \<longrightarrow> ?res = Win"
    using slot_inner_wins [OF assms(7-10)] wr by blast
  have bo: "?res = Win \<longrightarrow> list_ex (inBox [f1, f2, f3, c]) slotOuterBoxes"
    using slot_wins_outer [OF assms(7-10)] wr by blast
  have bd: "length (filter (inBox [f1, f2, f3, c]) slotInnerBoxes) \<le> 1"
    using assms(7-10) by (rule slot_inner_disjoint)
  have p: "11 / 18 - 1 / 2 ^ 50 \<le> slotWinLower \<and> slotWinLower \<le> slotWinUpper \<and>
      slotWinUpper \<le> 11 / 18 + 1 / 2 ^ 50"
    by (rule slot_volume_bounds)
  then have q: "\<bar>slotWinLower - 611 / 1000\<bar> \<le> 1 / 2000 \<and> \<bar>slotWinUpper - 611 / 1000\<bar> \<le> 1 / 2000"
    by simp
  have "spin rnd spinning reels e = (?reels, Some ?res, e') \<and>
      ticks e' = ticks e + 21 \<and> clock e' = clock e + 21 * 100 \<and>
      (c > double04 \<longrightarrow> ?reels = [pickSymbol w, pickSymbol w, pickSymbol w] \<and> ?res = Win \<and>
         session e' = handleWin (rnd (drawn e + 68)) ((session e)\<lparr>isSpinning := False\<rparr>) \<and>
         drawn e' = drawn e + 69) \<and>
      (\<not> c > double04 \<longrightarrow> ?reels = [pickSymbol f1, pickSymbol f2, pickSymbol f3] \<and>
         (?res = Win \<longleftrightarrow> pickSymbol f1 = pickSymbol f2 \<and> pickSymbol f2 = pickSymbol f3) \<and>
         (?res = Win \<longrightarrow>
            session e' = handleWin (rnd (drawn e + 67)) ((session e)\<lparr>isSpinning := False\<rparr>) \<and>
            drawn e' = drawn e + 68) \<and>
         (?res = Loss \<longrightarrow>
            session e' = (session e)\<lparr>isSpinning := False\<rparr> \<and> drawn e' = drawn e + 67)) \<and>
      4 / 10 \<le> double04 \<and> double04 \<le> 4 / 10 + 1 / 2 ^ 54 \<and>
      (c > double04 \<longleftrightarrow> inInterval c (Interval False double04 1 False)) \<and>
      intervalLength (Interval False double04 1 False) = 1 - double04 \<and>
      (\<forall>k < 6. \<forall>r. validDraw r \<longrightarrow>
         (inInterval r (floorInner 6 (int k)) \<longrightarrow> pickSymbol r = Some (symbols ! k)) \<and>
         (pickSymbol r = Some (symbols ! k) \<longrightarrow> inInterval r (floorOuter 6 (int k)))) \<and>
      (\<forall>k. intervalLength (floorInner 6 k) = 1 / 6 - 1 / 2 ^ 53 \<and>
           intervalLength (floorOuter 6 k) = 1 / 6 + 1 / 2 ^ 53) \<and>
      (list_ex (inBox [f1, f2, f3, c]) slotInnerBoxes \<longrightarrow> ?res = Win) \<and>
      (?res = Win \<longrightarrow> list_ex (inBox [f1, f2, f3, c]) slotOuterBoxes) \<and>
      length (filter (inBox [f1, f2, f3, c]) slotInnerBoxes) \<le> 1 \<and>
      11 / 18 - 1 / 2 ^ 50 \<le> slotWinLower \<and> slotWinLower \<le> slotWinUpper \<and>
      slotWinUpper \<le> 11 / 18 + 1 / 2 ^ 50 \<and>
      \<bar>slotWinLower - 611 / 1000\<bar> \<le> 1 / 2000 \<and> \<bar>slotWinUpper - 611 / 1000\<bar> \<le> 1 / 2000"
    using r t k forced other d ci cl u l bi bo bd p q by blast
  then show ?thesis by blast
qed

theorem slot_outcome_witness:
  "validDraw (winTape 63) \<and> validDraw (winTape 64) \<and> validDraw (winTape 65) \<and> validDraw (winTape 66) \<and>
   winTape 66 > double04 \<and>
   fst (spin winTape False [] startEnv) = [Some Seven, Some Seven, Some Seven] \<and>
   fst (snd (spin winTape False [] startEnv)) = Some Win \<and>
   session (snd (snd (spin winTape False [] startEnv))) = handleWin (3 / 4) initialState \<and>
   drawn (snd (snd (spin winTape False [] startEnv))) = 69 \<and>
   inBox [winTape 63, winTape 64, winTape 65, winTape 66] slotForcedBox \<and>
   inInterval (winTape 67) (floorOuter 6 4) \<and>
   validDraw (matchTape 63) \<and> validDraw (matchTape 64) \<and> validDraw (matchTape 65) \<and>
   validDraw (matchTape 66) \<and> \<not> matchTape 66 > double04 \<and>
   fst (spin matchTape False [] startEnv) = [Some Lemon, Some Lemon, Some Lemon] \<and>
   fst (snd (spin matchTape False [] startEnv)) = Some Win \<and>
   session (snd (snd (spin matchTape False [] startEnv))) = handleWin (1 / 4) initialState \<and>
   drawn (snd (snd (spin matchTape False [] startEnv))) = 68 \<and>
   validDraw (lossTape 63) \<and> validDraw (lossTape 64) \<and> validDraw (lossTape 65) \<and> validDraw (lossTape 66) \<and>
   \<not> lossTape 66 > double04 \<and>
   fst (spin lossTape False [] startEnv) = [Some Lemon, Some Cherry, Some Lemon] \<and>
   fst (snd (spin lossTape False [] startEnv)) = Some Loss \<and>
   session (snd (snd (spin lossTape False [] startEnv))) = initialState \<and>
   drawn (snd (snd (spin lossTape False [] startEnv))) = 67"
proof -
  have n: "\<not> False" by simp
  have d: "drawn startEnv = 0"
    by (simp add: startEnv_def)
  have i: "(session startEnv)\<lparr>isSpinning := False\<rparr> = initialState"
    by (simp add: startEnv_def initialState_def)
  have vw: "validDraw (winTape k)" for k
    by (simp add: winTape_def validDraw_def double_eval)
  have vm: "validDraw (matchTape k)" for k
    by (simp add: matchTape_def validDraw_def double_eval)
  have vl: "validDraw (lossTape k)" for k
    by (simp add: lossTape_def validDraw_def double_eval)
  have cw: "winTape k > double04" for k
    by (simp add: winTape_def double04_value)
  have cm: "\<not> matchTape k > double04" for k
    by (simp add: matchTape_def double04_value)
  have cl: "\<not> lossTape 66 > double04" "\<not> lossTape (drawn startEnv + 66) > double04"
    by (simp_all add: lossTape_def double04_value d)
  have pw: "pickSymbol (winTape k) = Some Seven" "Some Seven = Some (symbols ! 4)" for k
    by (simp_all add: winTape_def pickSymbol_def symbols_def double_eval)
  have pm: "pickSymbol (matchTape k) = Some Lemon" for k
    by (simp add: matchTape_def pickSymbol_def symbols_def double_eval)
  have pl: "pickSymbol (lossTape 63) = Some Lemon" "pickSymbol (lossTape 64) = Some Cherry"
      "pickSymbol (lossTape 65) = Some Lemon"
    by (simp_all add: lossTape_def pickSymbol_def symbols_def double_eval)
  have tw: "winTape k = 3 / 4" for k by (simp add: winTape_def)
  have p34: "pickSymbol (3 / 4) = Some Seven"
    by (simp add: pickSymbol_def symbols_def double_eval)
  have tm: "matchTape k = 1 / 4" for k by (simp add: matchTape_def)
  have fb: "inBox [winTape 63, winTape 64, winTape 65, winTape 66] slotForcedBox"
    using vw cw by (simp add: in_forced)

  from slot_outcome [where e = startEnv and rnd = winTape and spinning = False and reels = "[]", OF n vw vw vw vw]
  obtain reels1 res1 e1 where
    r1: "spin winTape False [] startEnv = (reels1, Some res1, e1)" and
    f1: "double04 < winTape (drawn startEnv + 66) \<longrightarrow>
      reels1 = [pickSymbol (winTape (drawn startEnv + 67)), pickSymbol (winTape (drawn startEnv + 67)),
        pickSymbol (winTape (drawn startEnv + 67))] \<and> res1 = Win \<and>
      session e1 = handleWin (winTape (drawn startEnv + 68)) ((session startEnv)\<lparr>isSpinning := False\<rparr>) \<and>
      drawn e1 = drawn startEnv + 69" and
    u1: "\<forall>k<6. \<forall>r. validDraw r \<longrightarrow>
         (inInterval r (floorInner 6 (int k)) \<longrightarrow> pickSymbol r = Some (symbols ! k)) \<and>
         (pickSymbol r = Some (symbols ! k) \<longrightarrow> inInterval r (floorOuter 6 (int k)))"
    by blast
  from f1 cw have g1: "reels1 = [Some Seven, Some Seven, Some Seven]" "res1 = Win"
      "session e1 = handleWin (3 / 4) initialState" "drawn e1 = 69"
    by (simp_all add: p34 tw i d)
  have k4: "(4::nat) < 6" by simp
  have ps: "pickSymbol (winTape 67) = Some (symbols ! 4)"
    by (simp add: winTape_def pickSymbol_def symbols_def double_eval)
  from u1 k4 vw [of 67] ps have "inInterval (winTape 67) (floorOuter 6 (int 4))"
    by blast
  then have i1: "inInterval (winTape 67) (floorOuter 6 4)" by simp

  from slot_outcome [where e = startEnv and rnd = matchTape and spinning = False and reels = "[]", OF n vm vm vm vm]
  obtain reels2 res2 e2 where
    r2: "spin matchTape False [] startEnv = (reels2, Some res2, e2)" and
    f2: "\<not> double04 < matchTape (drawn startEnv + 66) \<longrightarrow>
      reels2 = [pickSymbol (matchTape (drawn startEnv + 63)), pickSymbol (matchTape (drawn startEnv + 64)),
        pickSymbol (matchTape (drawn startEnv + 65))] \<and>
      (res2 = Win) = (pickSymbol (matchTape (drawn startEnv + 63)) = pickSymbol (matchTape (drawn startEnv + 64)) \<and>
        pickSymbol (matchTape (drawn startEnv + 64)) = pickSymbol (matchTape (drawn startEnv + 65))) \<and>
      (res2 = Win \<longrightarrow>
        session e2 = handleWin (matchTape (drawn startEnv + 67)) ((session startEnv)\<lparr>isSpinning := False\<rparr>) \<and>
        drawn e2 = drawn startEnv + 68) \<and>
      (res2 = Loss \<longrightarrow>
        session e2 = (session startEnv)\<lparr>isSpinning := False\<rparr> \<and> drawn e2 = drawn startEnv + 67)"
    by blast
  from f2 cm have g2: "reels2 = [Some Lemon, Some Lemon, Some Lemon]" "res2 = Win"
    by (simp_all add: pm)
  with f2 cm have h2: "session e2 = handleWin (1 / 4) initialState" "drawn e2 = 68"
    by (simp_all add: tm i d)

  from slot_outcome [where e = startEnv and rnd = lossTape and spinning = False and reels = "[]", OF n vl vl vl vl]
  obtain reels3 res3 e3 where
    r3: "spin lossTape False [] startEnv = (reels3, Some res3, e3)" and
    f3: "\<not> double04 < lossTape (drawn startEnv + 66) \<longrightarrow>
      reels3 = [pickSymbol (lossTape (drawn startEnv + 63)), pickSymbol (lossTape (drawn startEnv + 64)),
        pickSymbol (lossTape (drawn startEnv + 65))] \<and>
      (res3 = Win) = (pickSymbol (lossTape (drawn startEnv + 63)) = pickSymbol (lossTape (drawn startEnv + 64)) \<and>
        pickSymbol (lossTape (drawn startEnv + 64)) = pickSymbol (lossTape (drawn startEnv + 65))) \<and>
      (res3 = Win \<longrightarrow>
        session e3 = handleWin (lossTape (drawn startEnv + 67)) ((session startEnv)\<lparr>isSpinning := False\<rparr>) \<and>
        drawn e3 = drawn startEnv + 68) \<and>
      (res3 = Loss \<longrightarrow>
        session e3 = (session startEnv)\<lparr>isSpinning := False\<rparr> \<and> drawn e3 = drawn startEnv + 67)"
    by blast
  from f3 cl(2) pl have g3: "reels3 = [Some Lemon, Some Cherry, Some Lemon]" "res3 \<noteq> Win"
    by (simp_all add: d)
  from g3(2) have g4: "res3 = Loss" by (cases res3) simp_all
  with f3 cl(2) have h3: "session e3 = initialState" "drawn e3 = 67"
    by (simp_all add: d startEnv_def initialState_def)

  from n vw vm vl cw cm cl(1) fb i1 r1 g1 r2 g2 h2 r3 g3(1) g4 h3 show ?thesis by simp
qed

text \<open>
  C7 as stated gives 61.7 per cent for the probability of a win. The volume of the boxes
  that hold every winning draw is more than half a percentage point below that figure.
\<close>

theorem slot_probability_counterexample:
  "slotWinUpper < 617 / 1000 - 1 / 200"
  using slot_volume_bounds by simp

end
